theory Spec2Isabelle
  imports Complex_Main
begin

section \<open>The batch-translation pipeline of translate.py\<close>

text \<open>
  The theory embeds the four pure parts of \<^verbatim>\<open>translate.py\<close>: the blank test, the
  generator \<^verbatim>\<open>batcher\<close>, the retrying client \<^verbatim>\<open>libretranslate_translate_batch\<close> and the
  accumulate-and-write-back loops of \<^verbatim>\<open>translate_docx\<close>.

  Conventions of the embedding.
  \<^item> A Python \<^verbatim>\<open>str\<close> is a \<open>string\<close>; only its length, its slices and the whitespace test
    are used by the program. Characters are the code points below 256.
  \<^item> A value that may be Python's \<^verbatim>\<open>None\<close> is an \<open>option\<close>.
  \<^item> \<^verbatim>\<open>id(paragraph)\<close> is the paragraph itself: the type \<open>'p\<close> of paragraphs is the type of
    object identities.
  \<^item> Python integers are \<open>int\<close>.
  \<^item> A generator is the set of states in which it can be suspended, with the function
    that resumes it up to the next \<^verbatim>\<open>yield\<close>. A loop that consumes a generator to its end
    is a partial function: \<open>None\<close> stands for a loop that never ends.
  \<^item> An exception is a value: a function that can raise returns a sum, \<open>Inl\<close> for the
    exception and \<open>Inr\<close> for the returned value.
  \<^item> The remote service, the standard output, the clock and the document are explicit.
\<close>

subsection \<open>Configuration constants\<close>

definition MAX_TOTAL_CHARS_PER_BATCH :: int where
  "MAX_TOTAL_CHARS_PER_BATCH = 20000"

definition MAX_ITEMS_PER_BATCH :: int where
  "MAX_ITEMS_PER_BATCH = 50"

definition RETRY_LIMIT :: nat where
  "RETRY_LIMIT = 4"

subsection \<open>Paragraph references and the blank test\<close>

record 'p ParaRef =
  "paragraph" :: 'p
  original_text :: "string option"

text \<open>
  \<^verbatim>\<open>str.strip()\<close> removes leading and trailing whitespace; the whitespace code points
  below 256 are 9 to 13, 28 to 32, 133 and 160.
\<close>

definition isspace :: "char \<Rightarrow> bool" where
  "isspace c = ((of_char c :: nat) \<in> {9, 10, 11, 12, 13, 28, 29, 30, 31, 32, 133, 160})"

definition strip :: "string \<Rightarrow> string" where
  "strip s = rev (dropWhile isspace (rev (dropWhile isspace s)))"

text \<open>\<^verbatim>\<open>return (s is None) or (s.strip() == "")\<close>\<close>

definition is_blank :: "string option \<Rightarrow> bool" where
  "is_blank s = (case s of None \<Rightarrow> True | Some t \<Rightarrow> strip t = [])"

text \<open>\<^verbatim>\<open>it.original_text or ""\<close>: \<^verbatim>\<open>None\<close> and the empty string both give the empty string.\<close>

definition text_or_empty :: "string option \<Rightarrow> string" where
  "text_or_empty t = (case t of None \<Rightarrow> [] | Some s \<Rightarrow> s)"

subsection \<open>Slicing\<close>

text \<open>
  \<^verbatim>\<open>txt[i:j]\<close> for a sequence of length \<open>n\<close>: a negative bound counts from the end, and both
  bounds are clamped to \<open>0..n\<close>.
\<close>

definition slice_bound :: "nat \<Rightarrow> int \<Rightarrow> nat" where
  "slice_bound n i =
     (if i < 0 then (if i + int n < 0 then 0 else nat (i + int n))
      else if int n < i then n else nat i)"

definition py_slice :: "'a list \<Rightarrow> int \<Rightarrow> int \<Rightarrow> 'a list" where
  "py_slice xs i j =
     (let a = slice_bound (length xs) i; b = slice_bound (length xs) j
      in take (b - a) (drop a xs))"

subsection \<open>The batcher\<close>

text \<open>
  The states of the generator \<^verbatim>\<open>batcher\<close>.
  \<^item> \<open>Loop items batch tot\<close>: the \<^verbatim>\<open>for\<close> loop is about to take the first of \<open>items\<close>, with
    the pending \<^verbatim>\<open>batch\<close> and its running \<^verbatim>\<open>total\<close> (here \<open>tot\<close>). With no item left, the
    final \<^verbatim>\<open>if batch: yield batch\<close> is next.
  \<^item> \<open>Split p txt start items tot\<close>: the \<^verbatim>\<open>while\<close> loop that cuts the text \<open>txt\<close> of the
    paragraph \<open>p\<close> is about to test \<^verbatim>\<open>start < n\<close>; \<open>items\<close> are the units after this one. The
    pending batch is empty there.
  \<^item> \<open>Stop\<close>: the body of the generator has ended.
\<close>

datatype 'p batcher_state =
    Loop "'p ParaRef list" "'p ParaRef list" int
  | Split 'p string int "'p ParaRef list" int
  | Stop

text \<open>
  \<open>batcher_next\<close> resumes the generator: it runs the body up to the next \<^verbatim>\<open>yield\<close> and
  returns the batch with the state to resume from, or \<open>None\<close> when the body ends
  (\<^verbatim>\<open>StopIteration\<close>).
  \<^verbatim>\<open>
  for it in items:
      txt = it.original_text or ""
      n = len(txt)
      if _is_blank(txt):
          continue
      if n > max_total_chars:
          if batch:
              yield batch
              batch, total = [], 0
          start = 0
          while start < n:
              chunk = txt[start:start + max_total_chars]
              yield [ParaRef(it.paragraph, chunk)]
              start += max_total_chars
          continue
      if (len(batch) + 1 > max_items) or (total + n > max_total_chars):
          if batch:
              yield batch
          batch = [it]
          total = n
      else:
          batch.append(it)
          total += n
  if batch:
      yield batch
  \<close>
  Between two \<^verbatim>\<open>yield\<close>s the body takes units off \<open>items\<close> or leaves a \<^verbatim>\<open>while\<close> loop, so
  every call of \<open>batcher_next\<close> returns.
\<close>

function batcher_next ::
  "int \<Rightarrow> int \<Rightarrow> 'p batcher_state \<Rightarrow> ('p ParaRef list \<times> 'p batcher_state) option" where
  "batcher_next max_total_chars max_items Stop = None"
| "batcher_next max_total_chars max_items (Loop [] batch tot) =
     (if batch \<noteq> [] then Some (batch, Stop) else None)"
| "batcher_next max_total_chars max_items (Loop (it # items) batch tot) =
     (let txt = text_or_empty (original_text it);
          n = int (length txt)
      in if is_blank (Some txt) then batcher_next max_total_chars max_items (Loop items batch tot)
         else if n > max_total_chars then
           (if batch \<noteq> [] then Some (batch, Split (paragraph it) txt 0 items 0)
            else batcher_next max_total_chars max_items (Split (paragraph it) txt 0 items tot))
         else if int (length batch) + 1 > max_items \<or> tot + n > max_total_chars then
           (if batch \<noteq> [] then Some (batch, Loop items [it] n)
            else batcher_next max_total_chars max_items (Loop items [it] n))
         else batcher_next max_total_chars max_items (Loop items (batch @ [it]) (tot + n)))"
| "batcher_next max_total_chars max_items (Split p txt start items tot) =
     (if start < int (length txt) then
        Some ([\<lparr>paragraph = p,
                 original_text = Some (py_slice txt start (start + max_total_chars))\<rparr>],
              Split p txt (start + max_total_chars) items tot)
      else batcher_next max_total_chars max_items (Loop items [] tot))"
  by pat_completeness auto

termination
  by (relation "measure (\<lambda>(mc, mi, st). case st of
          Loop items batch tot \<Rightarrow> 2 * length items
        | Split p t start items tot \<Rightarrow> 2 * length items + 1
        | Stop \<Rightarrow> 0)") auto

text \<open>
  The first \<open>k\<close> batches that a consumer gets from the generator in the state \<open>st\<close>, fewer
  when the generator ends before: \<^verbatim>\<open>list(itertools.islice(gen, k))\<close>.
\<close>

fun batcher_take ::
  "nat \<Rightarrow> int \<Rightarrow> int \<Rightarrow> 'p batcher_state \<Rightarrow> 'p ParaRef list list" where
  "batcher_take 0 max_total_chars max_items st = []"
| "batcher_take (Suc k) max_total_chars max_items st =
     (case batcher_next max_total_chars max_items st of
        None \<Rightarrow> []
      | Some (batch, st') \<Rightarrow> batch # batcher_take k max_total_chars max_items st')"

text \<open>
  All the batches of the generator in the state \<open>st\<close>, as a \<^verbatim>\<open>for\<close> loop over it collects
  them: \<^verbatim>\<open>list(gen)\<close>. The value is \<open>None\<close> when the generator yields for ever; what it
  yields then is told by \<open>batcher_take\<close>.
\<close>

partial_function (option) batcher_all ::
  "int \<Rightarrow> int \<Rightarrow> 'p batcher_state \<Rightarrow> 'p ParaRef list list option" where
  "batcher_all max_total_chars max_items st =
     (case batcher_next max_total_chars max_items st of
        None \<Rightarrow> Some []
      | Some (batch, st') \<Rightarrow>
          Option.bind (batcher_all max_total_chars max_items st') (\<lambda>rest. Some (batch # rest)))"

text \<open>
  \<open>batcher_loop\<close> lists the batches yielded from the point where the \<^verbatim>\<open>for\<close> loop has the
  units \<open>items\<close> before it, with the pending \<^verbatim>\<open>batch\<close> and its \<^verbatim>\<open>total\<close>; \<open>batcher\<close> is the
  call \<^verbatim>\<open>batcher(items, max_total_chars, max_items)\<close> consumed to its end, and
  \<open>batcher_prefix k\<close> its first \<open>k\<close> batches.
\<close>

definition batcher_loop ::
  "int \<Rightarrow> int \<Rightarrow> 'p ParaRef list \<Rightarrow> 'p ParaRef list \<Rightarrow> int \<Rightarrow> 'p ParaRef list list option" where
  "batcher_loop max_total_chars max_items items batch tot =
     batcher_all max_total_chars max_items (Loop items batch tot)"

definition batcher :: "'p ParaRef list \<Rightarrow> int \<Rightarrow> int \<Rightarrow> 'p ParaRef list list option" where
  "batcher items max_total_chars max_items = batcher_loop max_total_chars max_items items [] 0"

definition batcher_prefix ::
  "nat \<Rightarrow> 'p ParaRef list \<Rightarrow> int \<Rightarrow> int \<Rightarrow> 'p ParaRef list list" where
  "batcher_prefix k items max_total_chars max_items =
     batcher_take k max_total_chars max_items (Loop items [] 0)"

subsection \<open>The translation client\<close>

text \<open>
  What one \<^verbatim>\<open>session.post\<close> can lead to inside the \<^verbatim>\<open>try\<close> block: the request raises, the
  status is not a success, the body is not JSON, the JSON value is not an object, or it is
  an object whose \<^verbatim>\<open>translatedText\<close> is a list (its elements already passed through
  \<^verbatim>\<open>str\<close>), a string, or anything else (a missing key included). The string of a response
  is the text that \<^verbatim>\<open>str\<close> gives for the exception it leads to; for an object it is
  \<^verbatim>\<open>str(data)\<close>, which the \<^verbatim>\<open>ValueError\<close> of the last line of the block quotes.
\<close>

datatype translated_text = TTList "string list" | TTStr string | TTOther

datatype response =
    PostRaises string
  | StatusNotOk string
  | BodyNotJson string
  | BodyNotDict string
  | Body translated_text string

text \<open>
  The exceptions, each with its message; \<open>OutputError\<close> is what \<^verbatim>\<open>print\<close> raises when the
  standard output does not take a line (a \<^verbatim>\<open>UnicodeEncodeError\<close> for a character outside its
  encoding, an \<^verbatim>\<open>OSError\<close> for a closed pipe).
\<close>

datatype exn =
    RequestException string
  | HTTPError string
  | JSONDecodeError string
  | AttributeError string
  | ValueError string
  | OutputError

fun message :: "exn \<Rightarrow> string" where
  "message (RequestException m) = m"
| "message (HTTPError m) = m"
| "message (JSONDecodeError m) = m"
| "message (AttributeError m) = m"
| "message (ValueError m) = m"
| "message OutputError = []"

text \<open>The body of the \<^verbatim>\<open>try\<close> block: \<open>Inr\<close> is a \<^verbatim>\<open>return\<close>, \<open>Inl\<close> a raised exception.\<close>

fun try_body :: "response \<Rightarrow> string list \<Rightarrow> exn + string list" where
  "try_body (PostRaises m) texts = Inl (RequestException m)"
| "try_body (StatusNotOk m) texts = Inl (HTTPError m)"
| "try_body (BodyNotJson m) texts = Inl (JSONDecodeError m)"
| "try_body (BodyNotDict m) texts = Inl (AttributeError m)"
| "try_body (Body (TTList tt) shown) texts = Inr tt"
| "try_body (Body (TTStr tt) shown) texts =
     (if length texts = 1 then Inr [tt]
      else Inl (ValueError (''Unexpected response shape: '' @ shown)))"
| "try_body (Body TTOther shown) texts =
     Inl (ValueError (''Unexpected response shape: '' @ shown))"

text \<open>
  The two lines that the client prints: the warning of the handler, with the number of
  the attempt, the text of the exception and the seconds to sleep, and the line after
  the loop, with the text of the last exception (\<^verbatim>\<open>None\<close> when there was none).

  The world around the client: a remote service is any function from the number of the
  request and its payload to a response, and a standard output is any set of lines that
  it takes; \<^verbatim>\<open>print\<close> raises on the others. The state \<open>net\<close> counts the requests posted so
  far, logs every \<^verbatim>\<open>time.sleep\<close> in seconds and every line printed.
\<close>

datatype line = WarnLine nat string rat | ErrorLine "string option"

record world =
  service :: "nat \<Rightarrow> string list \<Rightarrow> response"
  stdout :: "line \<Rightarrow> bool"

record net =
  calls :: nat
  sleeps :: "rat list"
  printed :: "line list"

text \<open>
  \<^verbatim>\<open>
  for attempt in range(1, RETRY_LIMIT + 1):
      try:
          ...
      except Exception as e:
          last_err = e
          sleep_s = 1.5 * attempt
          print(f"[WARN] Batch gagal (attempt {attempt}/{RETRY_LIMIT}): {e} | sleep {sleep_s:.1f}s")
          time.sleep(sleep_s)
  print(f"[ERROR] Batch gagal total, pakai teks asli. Error terakhir: {last_err}")
  return texts
  \<close>
  The two \<^verbatim>\<open>print\<close>s are outside the \<^verbatim>\<open>try\<close> block: an exception of theirs leaves the
  function. The state that comes with an exception is the world at that moment.
\<close>

fun attempt_loop ::
  "world \<Rightarrow> string list \<Rightarrow> nat list \<Rightarrow> string option \<Rightarrow> net
     \<Rightarrow> (exn \<times> net) + (string list \<times> net)" where
  "attempt_loop w texts [] last_err s =
     (if stdout w (ErrorLine last_err)
      then Inr (texts, s\<lparr>printed := printed s @ [ErrorLine last_err]\<rparr>)
      else Inl (OutputError, s))"
| "attempt_loop w texts (attempt # attempts) last_err s =
     (case try_body (service w (calls s) texts) texts of
        Inr translated \<Rightarrow> Inr (translated, s\<lparr>calls := calls s + 1\<rparr>)
      | Inl e \<Rightarrow>
          (let sleep_s = 3 / 2 * of_nat attempt in
           if stdout w (WarnLine attempt (message e) sleep_s)
           then attempt_loop w texts attempts (Some (message e))
                  (s\<lparr>calls := calls s + 1,
                     sleeps := sleeps s @ [sleep_s],
                     printed := printed s @ [WarnLine attempt (message e) sleep_s]\<rparr>)
           else Inl (OutputError, s\<lparr>calls := calls s + 1\<rparr>)))"

definition libretranslate_translate_batch ::
  "world \<Rightarrow> string list \<Rightarrow> net \<Rightarrow> (exn \<times> net) + (string list \<times> net)" where
  "libretranslate_translate_batch w texts s =
     attempt_loop w texts [1..<RETRY_LIMIT + 1] None s"

subsection \<open>Accumulation and writeback\<close>

text \<open>
  The document: the current text of every paragraph, and the log of the calls of
  \<^verbatim>\<open>clear_and_set_paragraph_text\<close> in the order they happen.
\<close>

record 'p document =
  text_of :: "'p \<Rightarrow> string"
  commits :: "('p \<times> string) list"

definition clear_and_set_paragraph_text :: "'p \<Rightarrow> string \<Rightarrow> 'p document \<Rightarrow> 'p document" where
  "clear_and_set_paragraph_text p new_text doc =
     doc\<lparr>text_of := (text_of doc)(p := new_text), commits := commits doc @ [(p, new_text)]\<rparr>"

text \<open>\<^verbatim>\<open>for bref, ttxt in zip(batch, translated_list): accum.setdefault(key, []).append(ttxt)\<close>\<close>

fun accumulate ::
  "('p ParaRef \<times> string) list \<Rightarrow> ('p \<rightharpoonup> string list) \<Rightarrow> ('p \<rightharpoonup> string list)" where
  "accumulate [] accum = accum"
| "accumulate ((bref, ttxt) # rest) accum =
     accumulate rest
       (accum(paragraph bref \<mapsto> (case accum (paragraph bref) of None \<Rightarrow> [] | Some l \<Rightarrow> l) @ [ttxt]))"

text \<open>
  The loop over the batches, which resumes the generator, translates the batch it gets
  and accumulates, until the generator ends; an exception of the client leaves the
  loop. Every item of a batch carries a text that is not \<^verbatim>\<open>None\<close> (lemma
  \<open>batcher_loop_texts\<close> below), so \<^verbatim>\<open>b.original_text\<close> is read through \<open>text_or_empty\<close>.
\<close>

definition batch_texts :: "'p ParaRef list \<Rightarrow> string list" where
  "batch_texts batch = map (\<lambda>b. text_or_empty (original_text b)) batch"

partial_function (option) translate_loop ::
  "world \<Rightarrow> 'p batcher_state \<Rightarrow> ('p \<rightharpoonup> string list) \<Rightarrow> net
     \<Rightarrow> ((exn \<times> net) + (('p \<rightharpoonup> string list) \<times> net)) option" where
  "translate_loop w st accum s =
     (case batcher_next MAX_TOTAL_CHARS_PER_BATCH MAX_ITEMS_PER_BATCH st of
        None \<Rightarrow> Some (Inr (accum, s))
      | Some (batch, st') \<Rightarrow>
          (case libretranslate_translate_batch w (batch_texts batch) s of
             Inl err \<Rightarrow> Some (Inl err)
           | Inr (translated_list, s') \<Rightarrow>
               translate_loop w st' (accumulate (zip batch translated_list) accum) s'))"

text \<open>
  \<^verbatim>\<open>
  for pref in translatable:
      key = id(pref.paragraph)
      if key in accum:
          final_text = "".join(accum[key])
          clear_and_set_paragraph_text(pref.paragraph, final_text)
  \<close>
  The loop reads \<open>accum\<close> and never changes it.
\<close>

fun writeback :: "'p ParaRef list \<Rightarrow> ('p \<rightharpoonup> string list) \<Rightarrow> 'p document \<Rightarrow> 'p document" where
  "writeback [] accum doc = doc"
| "writeback (pref # rest) accum doc =
     (case accum (paragraph pref) of
        None \<Rightarrow> writeback rest accum doc
      | Some chunks \<Rightarrow>
          writeback rest accum (clear_and_set_paragraph_text (paragraph pref) (concat chunks) doc))"

text \<open>
  \<^verbatim>\<open>translate_docx\<close> between reading and saving the file: \<open>all_paras\<close> is the list made from
  \<^verbatim>\<open>iter_all_paragraphs(doc)\<close>. The result holds the exception that leaves the function,
  or the accumulator as it is when the function ends, then the document and the world
  at that moment. An exception can only come out of the loop over the batches, before
  anything is written to the document.
\<close>

definition translate_docx ::
  "world \<Rightarrow> 'p ParaRef list \<Rightarrow> 'p document \<Rightarrow> net
     \<Rightarrow> ((exn + ('p \<rightharpoonup> string list)) \<times> 'p document \<times> net) option" where
  "translate_docx w all_paras doc s =
     (let translatable = filter (\<lambda>p. \<not> is_blank (original_text p)) all_paras
      in case translate_loop w (Loop translatable [] 0) Map.empty s of
           None \<Rightarrow> None
         | Some (Inl (e, s')) \<Rightarrow> Some (Inl e, doc, s')
         | Some (Inr (accum, s')) \<Rightarrow> Some (Inr accum, writeback translatable accum doc, s'))"

subsection \<open>Vocabulary for the properties\<close>

text \<open>
  The definitions of this subsection are not part of the program; the properties are
  stated with them.
  \<^item> \<open>unit_text u\<close> is the \<^verbatim>\<open>txt\<close> of the batcher, \<^verbatim>\<open>it.original_text or ""\<close>, and
    \<open>payload b\<close> the total length of the texts of a batch.
  \<^item> \<open>chunk_ref p txt m i\<close> is the \<open>i\<close>-th chunk of \<open>txt\<close> for a positive limit \<open>m\<close>, under
    the paragraph \<open>p\<close>, and \<open>chunk_count l m\<close> the number of chunks of a text of length \<open>l\<close>:
    \<open>l / m\<close> rounded up (lemma \<open>chunk_count_ceiling\<close>).
  \<^item> \<open>flush batch\<close> is what \<^verbatim>\<open>if batch: yield batch\<close> emits.
  \<^item> \<open>translatable_of\<close> is the list \<^verbatim>\<open>translatable\<close> of \<^verbatim>\<open>translate_docx\<close>, and
    \<open>texts_at p its\<close> lists the texts of the items of \<open>its\<close> with the paragraph \<open>p\<close>.
  \<^item> \<open>within_limits\<close> and \<open>is_chunk_batch\<close> are the two kinds of batch: a non-empty batch
    within both limits (at least one item is always allowed), and a singleton holding
    one chunk of an oversized, non-blank unit of the input: the slice that the \<open>i\<close>-th
    round of the \<^verbatim>\<open>while\<close> loop cuts, for a round that the loop reaches. \<open>batch_ok\<close> says
    that a batch is of one of the two kinds, and \<open>state_ok\<close> is what holds of every
    state that the generator goes through on the units \<open>all\<close>.
\<close>

definition chunk_ref :: "'p \<Rightarrow> string \<Rightarrow> nat \<Rightarrow> nat \<Rightarrow> 'p ParaRef" where
  "chunk_ref p txt m i = \<lparr>paragraph = p, original_text = Some (take m (drop (i * m) txt))\<rparr>"

definition chunk_count :: "nat \<Rightarrow> nat \<Rightarrow> nat" where
  "chunk_count l m = (l + m - 1) div m"

definition unit_text :: "'p ParaRef \<Rightarrow> string" where
  "unit_text u = text_or_empty (original_text u)"

definition payload :: "'p ParaRef list \<Rightarrow> int" where
  "payload b = sum_list (map (\<lambda>x. int (length (unit_text x))) b)"

definition flush :: "'a list \<Rightarrow> 'a list list" where
  "flush batch = (if batch \<noteq> [] then [batch] else [])"

definition texts_at :: "'p \<Rightarrow> 'p ParaRef list \<Rightarrow> string list" where
  "texts_at p its = map unit_text (filter (\<lambda>x. paragraph x = p) its)"

definition translatable_of :: "'p ParaRef list \<Rightarrow> 'p ParaRef list" where
  "translatable_of all_paras = filter (\<lambda>p. \<not> is_blank (original_text p)) all_paras"

definition within_limits :: "int \<Rightarrow> int \<Rightarrow> 'p ParaRef list \<Rightarrow> bool" where
  "within_limits mc mi b \<longleftrightarrow> b \<noteq> [] \<and> payload b \<le> mc \<and> int (length b) \<le> max 1 mi"

definition is_chunk_batch :: "int \<Rightarrow> 'p ParaRef list \<Rightarrow> 'p ParaRef list \<Rightarrow> bool" where
  "is_chunk_batch mc items b \<longleftrightarrow>
     (\<exists>u\<in>set items. \<exists>i::nat.
        \<not> is_blank (original_text u) \<and> mc < int (length (unit_text u)) \<and>
        int i * mc < int (length (unit_text u)) \<and>
        b = [\<lparr>paragraph = paragraph u,
              original_text = Some (py_slice (unit_text u) (int i * mc) (int i * mc + mc))\<rparr>])"

definition batch_ok :: "int \<Rightarrow> int \<Rightarrow> 'p ParaRef list \<Rightarrow> 'p ParaRef list \<Rightarrow> bool" where
  "batch_ok mc mi all b \<longleftrightarrow>
     (within_limits mc mi b \<and> set b \<subseteq> set all) \<or> is_chunk_batch mc all b"

fun state_ok :: "int \<Rightarrow> int \<Rightarrow> 'p ParaRef list \<Rightarrow> 'p batcher_state \<Rightarrow> bool" where
  "state_ok mc mi all (Loop items batch tot) \<longleftrightarrow>
     set items \<subseteq> set all \<and> set batch \<subseteq> set all \<and> tot = payload batch \<and>
     (batch \<noteq> [] \<longrightarrow> within_limits mc mi batch)"
| "state_ok mc mi all (Split p t start items tot) \<longleftrightarrow>
     set items \<subseteq> set all \<and> tot = 0 \<and>
     (\<exists>u\<in>set all. \<exists>i::nat. \<not> is_blank (original_text u) \<and> mc < int (length (unit_text u)) \<and>
        p = paragraph u \<and> t = unit_text u \<and> start = int i * mc)"
| "state_ok mc mi all Stop \<longleftrightarrow> True"

text \<open>
  The loop of \<^verbatim>\<open>translate_docx\<close> over a list of batches, and the pairs of a batch item
  and its translated string in the order in which the loop appends them to the
  accumulator, up to the first exception. \<open>received p prs\<close> lists the strings received
  under one paragraph, and \<open>joined accum p\<close> is the text that the writeback joins from
  an entry.
\<close>

fun translate_batches ::
  "world \<Rightarrow> 'p ParaRef list list \<Rightarrow> ('p \<rightharpoonup> string list) \<Rightarrow> net
     \<Rightarrow> (exn \<times> net) + (('p \<rightharpoonup> string list) \<times> net)" where
  "translate_batches w [] accum s = Inr (accum, s)"
| "translate_batches w (batch # batches) accum s =
     (case libretranslate_translate_batch w (batch_texts batch) s of
        Inl err \<Rightarrow> Inl err
      | Inr (translated_list, s') \<Rightarrow>
          translate_batches w batches (accumulate (zip batch translated_list) accum) s')"

fun arrivals :: "world \<Rightarrow> 'p ParaRef list list \<Rightarrow> net \<Rightarrow> ('p ParaRef \<times> string) list" where
  "arrivals w [] s = []"
| "arrivals w (batch # batches) s =
     (case libretranslate_translate_batch w (batch_texts batch) s of
        Inl err \<Rightarrow> []
      | Inr (translated_list, s') \<Rightarrow> zip batch translated_list @ arrivals w batches s')"

definition received :: "'p \<Rightarrow> ('p ParaRef \<times> string) list \<Rightarrow> string list" where
  "received p prs = map snd (filter (\<lambda>bt. paragraph (fst bt) = p) prs)"

definition joined :: "('p \<rightharpoonup> string list) \<Rightarrow> 'p \<Rightarrow> string" where
  "joined accum p = (case accum p of None \<Rightarrow> [] | Some chunks \<Rightarrow> concat chunks)"

text \<open>
  The client is an identity translation in a world when every call returns the texts
  it was given. \<open>echoes\<close> says that every attempt of the service either fails or returns
  the texts it was sent, and \<open>same_length\<close> that every list it returns has the length
  of the list it was sent; \<open>prints_all\<close> that the standard output takes every line.
  \<open>backoff\<close> names the sleep of the handler, \<^verbatim>\<open>1.5 * attempt\<close>.
\<close>

definition identity_translation :: "world \<Rightarrow> bool" where
  "identity_translation w \<longleftrightarrow>
     (\<forall>texts s. \<exists>s'. libretranslate_translate_batch w texts s = Inr (texts, s'))"

definition echoes :: "world \<Rightarrow> bool" where
  "echoes w \<longleftrightarrow> (\<forall>k ts ys. try_body (service w k ts) ts = Inr ys \<longrightarrow> ys = ts)"

definition same_length :: "world \<Rightarrow> bool" where
  "same_length w \<longleftrightarrow>
     (\<forall>k ts ys. try_body (service w k ts) ts = Inr ys \<longrightarrow> length ys = length ts)"

definition prints_all :: "world \<Rightarrow> bool" where
  "prints_all w \<longleftrightarrow> (\<forall>l. stdout w l)"

definition backoff :: "nat \<Rightarrow> rat" where
  "backoff attempt = 3 / 2 * of_nat attempt"

text \<open>
  Concrete surroundings used in the examples: a state in which nothing has happened
  yet and a document with no text; a service that never answers, one that answers
  every request with a one-element list and one that answers with an empty list, each
  with a standard output that takes every line; and a service that answers with the
  status 500 and a reason that holds the letter e with an acute accent (code point
  233), with a standard output that takes the lines made of ASCII characters only.
  \<open>run_commits\<close>, \<open>run_accum\<close> and \<open>run_text\<close> read the log of commits, the accumulator
  and the text of a paragraph off the result of a run.
\<close>

definition fresh_net :: net where
  "fresh_net = \<lparr>calls = 0, sleeps = [], printed = []\<rparr>"

definition blank_document :: "'p document" where
  "blank_document = \<lparr>text_of = (\<lambda>p. []), commits = []\<rparr>"

definition unreachable :: world where
  "unreachable = \<lparr>service = (\<lambda>k texts. PostRaises ''Connection refused''),
                   stdout = (\<lambda>l. True)\<rparr>"

definition short_reply :: world where
  "short_reply = \<lparr>service = (\<lambda>k texts. Body (TTList [''x'']) ''{'translatedText': ['x']}''),
                   stdout = (\<lambda>l. True)\<rparr>"


definition ascii_only :: "line \<Rightarrow> bool" where
  "ascii_only l =
     (case l of
        WarnLine attempt m sleep_s \<Rightarrow> list_all (\<lambda>c. (of_char c :: nat) < 128) m
      | ErrorLine None \<Rightarrow> True
      | ErrorLine (Some m) \<Rightarrow> list_all (\<lambda>c. (of_char c :: nat) < 128) m)"

definition accented_error :: world where
  "accented_error =
     \<lparr>service = (\<lambda>k texts. StatusNotOk
         (''500 Server Error: Erreur interne d'' @ [char_of (233 :: nat)]
            @ ''tect'' @ [char_of (233 :: nat)]
            @ ''e for url: http://localhost:5009/translate'')),
      stdout = ascii_only\<rparr>"

definition run_commits ::
  "((exn + ('p \<rightharpoonup> string list)) \<times> 'p document \<times> net) option \<Rightarrow> ('p \<times> string) list" where
  "run_commits r = (case r of None \<Rightarrow> [] | Some (res, doc, s) \<Rightarrow> commits doc)"

definition run_accum ::
  "((exn + ('p \<rightharpoonup> string list)) \<times> 'p document \<times> net) option \<Rightarrow> 'p \<Rightarrow> string list option" where
  "run_accum r p =
     (case r of None \<Rightarrow> None | Some (Inl e, doc, s) \<Rightarrow> None | Some (Inr accum, doc, s) \<Rightarrow> accum p)"

definition run_text ::
  "((exn + ('p \<rightharpoonup> string list)) \<times> 'p document \<times> net) option \<Rightarrow> 'p \<Rightarrow> string option" where
  "run_text r p = (case r of None \<Rightarrow> None | Some (res, doc, s) \<Rightarrow> Some (text_of doc p))"

section \<open>Lemmas about the embedded program\<close>

subsection \<open>Blank texts and slices\<close>

lemma strip_Nil_iff: "strip s = [] \<longleftrightarrow> (\<forall>c\<in>set s. isspace c)"
proof
  assume a: "strip s = []"
  show "\<forall>c\<in>set s. isspace c"
  proof (cases "dropWhile isspace s = []")
    case True
    then show ?thesis by (simp add: dropWhile_eq_Nil_conv)
  next
    case False
    then have "\<not> isspace (hd (dropWhile isspace s))" by (rule hd_dropWhile)
    moreover have "hd (dropWhile isspace s) \<in> set (rev (dropWhile isspace s))"
      using False by simp
    moreover from a have "\<forall>c\<in>set (rev (dropWhile isspace s)). isspace c"
      unfolding strip_def by (simp add: dropWhile_eq_Nil_conv)
    ultimately show ?thesis by blast
  qed
next
  assume "\<forall>c\<in>set s. isspace c"
  then have "dropWhile isspace s = []" by (metis dropWhile_eq_Nil_conv)
  then show "strip s = []" unfolding strip_def by (simp only: rev.simps dropWhile.simps)
qed

lemma is_blank_Some: "is_blank (Some t) \<longleftrightarrow> (\<forall>c\<in>set t. isspace c)"
  by (simp add: is_blank_def strip_Nil_iff)

lemma is_blank_text_or_empty: "is_blank (Some (text_or_empty t)) = is_blank t"
  by (cases t) (simp_all add: text_or_empty_def is_blank_def strip_def)

lemma not_blank_nonempty: "\<not> is_blank (Some t) \<Longrightarrow> t \<noteq> []"
  by (auto simp: is_blank_Some)

lemma py_slice_window:
  assumes "0 < m" and "s < length xs"
  shows "py_slice xs (int s) (int s + int m) = take m (drop s xs)"
proof -
  have a: "slice_bound (length xs) (int s) = s"
    using assms by (simp add: slice_bound_def)
  have b: "slice_bound (length xs) (int s + int m) = min (s + m) (length xs)"
    by (simp add: slice_bound_def nat_add_distrib min_def) 
  show ?thesis
    unfolding py_slice_def Let_def a b using assms
    by (simp add: min_def take_all_iff)
qed

lemma py_slice_length:
  assumes "0 \<le> a" "0 \<le> m"
  shows "int (length (py_slice xs a (a + m))) \<le> m"
proof -
  have sb: "slice_bound (length xs) c = min (nat c) (length xs)" if "0 \<le> c" for c
  proof (cases "int (length xs) < c")
    case True
    then have "length xs < nat c" by linarith
    with True that show ?thesis by (simp add: slice_bound_def min_def)
  next
    case False
    then have "nat c \<le> length xs" by linarith
    with False that show ?thesis by (simp add: slice_bound_def min_def)
  qed
  have a: "slice_bound (length xs) a = min (nat a) (length xs)"
    using assms by (intro sb)
  have b: "slice_bound (length xs) (a + m) = min (nat (a + m)) (length xs)"
    using assms by (intro sb) simp
  have "min (nat (a + m)) (length xs) - min (nat a) (length xs) \<le> nat m"
    using assms by (simp add: nat_add_distrib)
  then have "length (py_slice xs a (a + m)) \<le> nat m"
    unfolding py_slice_def Let_def a b length_take length_drop by (rule min.coboundedI2)
  then show ?thesis using assms by linarith
qed

lemma is_blank_unit_text: "is_blank (Some (unit_text it)) = is_blank (original_text it)"
  by (simp add: unit_text_def is_blank_text_or_empty)

subsection \<open>Resuming the generator\<close>

lemma batcher_all_cong:
  assumes "batcher_next mc mi st = batcher_next mc mi st'"
  shows "batcher_all mc mi st = batcher_all mc mi st'"
proof -
  have "batcher_all mc mi st =
          (case batcher_next mc mi st' of None \<Rightarrow> Some []
           | Some (batch, st'') \<Rightarrow>
               Option.bind (batcher_all mc mi st'') (\<lambda>rest. Some (batch # rest)))"
    by (subst batcher_all.simps) (simp only: assms)
  also have "\<dots> = batcher_all mc mi st'" by (rule batcher_all.simps[symmetric])
  finally show ?thesis .
qed

lemma batcher_all_yield:
  assumes "batcher_next mc mi st = Some (b, st')"
  shows "batcher_all mc mi st = map_option (\<lambda>out. b # out) (batcher_all mc mi st')"
  by (subst batcher_all.simps) (cases "batcher_all mc mi st'"; simp add: assms)

lemma batcher_all_end:
  assumes "batcher_next mc mi st = None"
  shows "batcher_all mc mi st = Some []"
  by (subst batcher_all.simps) (simp add: assms)

lemma batcher_next_blank:
  assumes "is_blank (original_text it)"
  shows "batcher_next mc mi (Loop (it # items) batch tot) = batcher_next mc mi (Loop items batch tot)"
  using assms
  by (subst batcher_next.simps(3)) (simp add: is_blank_text_or_empty Let_def del: batcher_next.simps)

lemma batcher_next_oversized:
  assumes "\<not> is_blank (original_text it)" "mc < int (length (unit_text it))"
  shows "batcher_next mc mi (Loop (it # items) batch tot) =
           (if batch \<noteq> [] then Some (batch, Split (paragraph it) (unit_text it) 0 items 0)
            else batcher_next mc mi (Split (paragraph it) (unit_text it) 0 items tot))"
  using assms
  by (subst batcher_next.simps(3))
     (simp add: is_blank_unit_text unit_text_def[symmetric] Let_def del: batcher_next.simps)

lemma batcher_next_flush:
  assumes "\<not> is_blank (original_text it)" "int (length (unit_text it)) \<le> mc"
    and "mi < int (length batch) + 1 \<or> mc < tot + int (length (unit_text it))"
  shows "batcher_next mc mi (Loop (it # items) batch tot) =
           (if batch \<noteq> [] then Some (batch, Loop items [it] (int (length (unit_text it))))
            else batcher_next mc mi (Loop items [it] (int (length (unit_text it)))))"
  using assms
  by (subst batcher_next.simps(3))
     (simp add: is_blank_unit_text unit_text_def[symmetric] Let_def del: batcher_next.simps)

lemma batcher_next_append:
  assumes "\<not> is_blank (original_text it)" "int (length (unit_text it)) \<le> mc"
    and "int (length batch) + 1 \<le> mi" "tot + int (length (unit_text it)) \<le> mc"
  shows "batcher_next mc mi (Loop (it # items) batch tot) =
           batcher_next mc mi (Loop items (batch @ [it]) (tot + int (length (unit_text it))))"
  using assms
  by (subst batcher_next.simps(3))
     (simp add: is_blank_unit_text unit_text_def[symmetric] Let_def del: batcher_next.simps)

lemma batcher_next_Split:
  "batcher_next mc mi (Split p t start items tot) =
     (if start < int (length t) then
        Some ([\<lparr>paragraph = p, original_text = Some (py_slice t start (start + mc))\<rparr>],
              Split p t (start + mc) items tot)
      else batcher_next mc mi (Loop items [] tot))"
  by (rule batcher_next.simps(4))

subsection \<open>The splitting loop\<close>

lemma chunk_count_step:
  assumes "0 < m" "0 < l"
  shows "chunk_count l m = Suc (chunk_count (l - m) m)"
proof (cases "m \<le> l")
  case True
  then have "l + m - 1 = (l - m + m - 1) + m" using assms by simp
  then show ?thesis unfolding chunk_count_def using assms by (metis div_add_self2 Suc_eq_plus1 less_numeral_extra(3))
next
  case False
  then have "l - m = 0" "m \<le> l + m - 1" "l + m - 1 < 2 * m" using assms by simp_all
  then show ?thesis unfolding chunk_count_def using assms
    by (simp add: div_nat_eqI)
qed

lemma batcher_all_Split:
  assumes m: "0 < m"
  shows "batcher_all (int m) mi (Split p t (int (k * m)) items tot) =
           map_option
             (\<lambda>out. map (\<lambda>i. [chunk_ref p t m i]) [k..<k + chunk_count (length t - k * m) m] @ out)
             (batcher_all (int m) mi (Loop items [] tot))"
proof (induction "length t - k * m" arbitrary: k rule: less_induct)
  case less
  show ?case
  proof (cases "k * m < length t")
    case False
    then have z: "chunk_count (length t - k * m) m = 0"
      using m by (simp add: chunk_count_def)
    have "batcher_next (int m) mi (Split p t (int (k * m)) items tot) =
          batcher_next (int m) mi (Loop items [] tot)"
      using False by (simp only: batcher_next_Split of_nat_less_iff if_False)
    then have e: "batcher_all (int m) mi (Split p t (int (k * m)) items tot) =
                  batcher_all (int m) mi (Loop items [] tot)"
      by (rule batcher_all_cong)
    show ?thesis unfolding e z
      by (cases "batcher_all (int m) mi (Loop items [] tot)") simp_all
  next
    case True
    have dec: "length t - Suc k * m < length t - k * m" using True m by simp
    have cnt: "chunk_count (length t - k * m) m = Suc (chunk_count (length t - Suc k * m) m)"
      using chunk_count_step[of m "length t - k * m"] True m by (simp add: algebra_simps)
    have nxt: "int (k * m) + int m = int (Suc k * m)" by (simp add: algebra_simps)
    have sl: "py_slice t (int (k * m)) (int (Suc k * m)) = take m (drop (k * m) t)"
      using py_slice_window[OF m True] by (simp only: nxt)
    have "batcher_next (int m) mi (Split p t (int (k * m)) items tot) =
            Some ([chunk_ref p t m k], Split p t (int (Suc k * m)) items tot)"
      using True by (simp only: batcher_next_Split of_nat_less_iff if_True nxt sl chunk_ref_def)
    from batcher_all_yield[OF this]
    have step: "batcher_all (int m) mi (Split p t (int (k * m)) items tot) =
            map_option (\<lambda>out. [chunk_ref p t m k] # out)
              (batcher_all (int m) mi (Split p t (int (Suc k * m)) items tot))" .
    have "k < Suc k + chunk_count (length t - Suc k * m) m" by simp
    from upt_conv_Cons[OF this]
    have up: "[k..<k + Suc (chunk_count (length t - Suc k * m) m)] =
            k # [Suc k..<Suc k + chunk_count (length t - Suc k * m) m]"
      by (simp only: add_Suc_right add_Suc)
    show ?thesis
      unfolding step less(1)[OF dec] cnt up
      by (cases "batcher_all (int m) mi (Loop items [] tot)") simp_all
  qed
qed

lemma batcher_all_Split_looping:
  assumes "batcher_all mc mi st = Some y"
  shows "\<forall>p t start items tot. st = Split p t start items tot \<longrightarrow> start < int (length t) \<longrightarrow> 0 < mc"
proof (rule batcher_all.raw_induct
         [where P = "\<lambda>mc mi st y. \<forall>p t start items tot.
                        st = Split p t start items tot \<longrightarrow> start < int (length t) \<longrightarrow> 0 < mc",
          OF _ assms])
  fix f :: "int \<Rightarrow> int \<Rightarrow> 'a batcher_state \<Rightarrow> 'a ParaRef list list option"
  fix mc mi st y
  assume ih: "\<And>mc mi st y. f mc mi st = Some y \<Longrightarrow>
                 \<forall>p t start items tot. st = Split p t start items tot \<longrightarrow>
                    start < int (length t) \<longrightarrow> 0 < mc"
    and body: "(case batcher_next mc mi st of None \<Rightarrow> Some []
                | Some (batch, st') \<Rightarrow> Option.bind (f mc mi st') (\<lambda>rest. Some (batch # rest)))
               = Some y"
  show "\<forall>p t start items tot. st = Split p t start items tot \<longrightarrow> start < int (length t) \<longrightarrow> 0 < mc"
  proof (intro allI impI)
    fix p t start items tot
    assume st: "st = Split p t start items tot" and lt: "start < int (length t)"
    from body obtain rest where "f mc mi (Split p t (start + mc) items tot) = Some rest"
      unfolding st using lt by (auto simp: bind_eq_Some_conv batcher_next_Split simp del: batcher_next.simps)
    from ih[OF this] have "start + mc < int (length t) \<longrightarrow> 0 < mc" by blast
    with lt show "0 < mc" by (cases "0 < mc") auto
  qed
qed

lemma batcher_all_Split_diverges:
  assumes "mc \<le> 0" "start < int (length t)"
  shows "batcher_all mc mi (Split p t start items tot) = None"
proof (cases "batcher_all mc mi (Split p t start items tot)")
  case (Some y)
  from batcher_all_Split_looping[OF this] assms show ?thesis by simp
qed simp


subsection \<open>The four branches of the outer loop\<close>

lemma batcher_loop_Nil [simp]:
  "batcher_loop mc mi [] batch tot = Some (if batch \<noteq> [] then [batch] else [])"
proof (cases "batch = []")
  case True
  then have "batcher_next mc mi (Loop [] batch tot) = None" by simp
  from batcher_all_end[OF this] True show ?thesis by (simp add: batcher_loop_def)
next
  case False
  then have "batcher_next mc mi (Loop [] batch tot) = Some (batch, Stop)" by simp
  from batcher_all_yield[OF this] False show ?thesis
    by (simp add: batcher_loop_def batcher_all_end)
qed

lemma batcher_loop_blank:
  assumes "is_blank (original_text it)"
  shows "batcher_loop mc mi (it # items) batch tot = batcher_loop mc mi items batch tot"
  unfolding batcher_loop_def by (rule batcher_all_cong) (rule batcher_next_blank[OF assms])

lemma batcher_loop_Split:
  assumes "\<not> is_blank (original_text it)" "mc < int (length (unit_text it))"
  shows "batcher_loop mc mi (it # items) batch tot =
           map_option (\<lambda>out. flush batch @ out)
             (batcher_all mc mi
                (Split (paragraph it) (unit_text it) 0 items (if batch \<noteq> [] then 0 else tot)))"
proof (cases "batch = []")
  case True
  have "batcher_next mc mi (Loop (it # items) batch tot) =
        batcher_next mc mi (Split (paragraph it) (unit_text it) 0 items tot)"
    unfolding batcher_next_oversized[OF assms] using True by (simp only: if_False simp_thms)
  from batcher_all_cong[OF this] True show ?thesis
    by (cases "batcher_all mc mi (Split (paragraph it) (unit_text it) 0 items tot)")
       (simp_all add: batcher_loop_def flush_def)
next
  case False
  have "batcher_next mc mi (Loop (it # items) batch tot) =
        Some (batch, Split (paragraph it) (unit_text it) 0 items 0)"
    unfolding batcher_next_oversized[OF assms] using False by (simp only: if_True simp_thms)
  from batcher_all_yield[OF this] False show ?thesis
    by (simp add: batcher_loop_def flush_def)
qed

lemma batcher_loop_oversized:
  assumes "\<not> is_blank (original_text it)" "int m < int (length (unit_text it))" "0 < m"
  shows "batcher_loop (int m) mi (it # items) batch tot =
           map_option
             (\<lambda>out. flush batch
                    @ map (\<lambda>i. [chunk_ref (paragraph it) (unit_text it) m i])
                        [0..<chunk_count (length (unit_text it)) m]
                    @ out)
             (batcher_loop (int m) mi items [] (if batch \<noteq> [] then 0 else tot))"
proof -
  have step: "batcher_loop (int m) mi (it # items) batch tot =
           map_option (\<lambda>out. flush batch @ out)
             (batcher_all (int m) mi
                (Split (paragraph it) (unit_text it) 0 items (if batch \<noteq> [] then 0 else tot)))"
    by (rule batcher_loop_Split[OF assms(1,2)])
  have "batcher_all (int m) mi
          (Split (paragraph it) (unit_text it) 0 items (if batch \<noteq> [] then 0 else tot)) =
        map_option
          (\<lambda>out. map (\<lambda>i. [chunk_ref (paragraph it) (unit_text it) m i])
                    [0..<chunk_count (length (unit_text it)) m] @ out)
          (batcher_all (int m) mi (Loop items [] (if batch \<noteq> [] then 0 else tot)))"
    using batcher_all_Split[OF assms(3), of mi "paragraph it" "unit_text it" 0 items
                              "if batch \<noteq> [] then 0 else tot"]
    by simp
  then show ?thesis
    unfolding step unfolding batcher_loop_def
    by (cases "batcher_all (int m) mi (Loop items [] (if batch \<noteq> [] then 0 else tot))")
       simp_all
qed

lemma batcher_loop_diverges:
  assumes "\<not> is_blank (original_text it)" "mc \<le> 0"
  shows "batcher_loop mc mi (it # items) batch tot = None"
proof -
  from assms(1) have ne: "unit_text it \<noteq> []"
    using not_blank_nonempty[of "unit_text it"] by (simp add: unit_text_def is_blank_text_or_empty)
  then have pos: "0 < int (length (unit_text it))" by simp
  have big: "mc < int (length (unit_text it))" using pos assms(2) by linarith
  show ?thesis
    unfolding batcher_loop_Split[OF assms(1) big] batcher_all_Split_diverges[OF assms(2) pos]
    by simp
qed

lemma batcher_loop_flush:
  assumes "\<not> is_blank (original_text it)" "int (length (unit_text it)) \<le> mc"
    and "mi < int (length batch) + 1 \<or> mc < tot + int (length (unit_text it))"
  shows "batcher_loop mc mi (it # items) batch tot =
           map_option (\<lambda>out. flush batch @ out)
             (batcher_loop mc mi items [it] (int (length (unit_text it))))"
proof (cases "batch = []")
  case True
  have "batcher_next mc mi (Loop (it # items) batch tot) =
        batcher_next mc mi (Loop items [it] (int (length (unit_text it))))"
    unfolding batcher_next_flush[OF assms] using True by (simp only: if_False simp_thms)
  from batcher_all_cong[OF this] True show ?thesis
    by (cases "batcher_all mc mi (Loop items [it] (int (length (unit_text it))))")
       (simp_all add: batcher_loop_def flush_def)
next
  case False
  have "batcher_next mc mi (Loop (it # items) batch tot) =
        Some (batch, Loop items [it] (int (length (unit_text it))))"
    unfolding batcher_next_flush[OF assms] using False by (simp only: if_True simp_thms)
  from batcher_all_yield[OF this] False show ?thesis
    by (simp add: batcher_loop_def flush_def)
qed

lemma batcher_loop_append:
  assumes "\<not> is_blank (original_text it)" "int (length (unit_text it)) \<le> mc"
    and "int (length batch) + 1 \<le> mi" "tot + int (length (unit_text it)) \<le> mc"
  shows "batcher_loop mc mi (it # items) batch tot =
           batcher_loop mc mi items (batch @ [it]) (tot + int (length (unit_text it)))"
  unfolding batcher_loop_def by (rule batcher_all_cong) (rule batcher_next_append[OF assms])


lemma batcher_loop_Cons_cases [consumes 1, case_names blank oversized flush append]:
  assumes run: "batcher_loop mc mi (it # items) batch tot = Some bs"
  obtains
    "is_blank (original_text it)" "batcher_loop mc mi items batch tot = Some bs"
  | m out where "\<not> is_blank (original_text it)" "mc = int m" "0 < m"
      "m < length (unit_text it)"
      "batcher_loop mc mi items [] (if batch \<noteq> [] then 0 else tot) = Some out"
      "bs = flush batch
            @ map (\<lambda>i. [chunk_ref (paragraph it) (unit_text it) m i])
                [0..<chunk_count (length (unit_text it)) m]
            @ out"
  | out where "\<not> is_blank (original_text it)" "int (length (unit_text it)) \<le> mc"
      "mi < int (length batch) + 1 \<or> mc < tot + int (length (unit_text it))"
      "batcher_loop mc mi items [it] (int (length (unit_text it))) = Some out"
      "bs = flush batch @ out"
  | "\<not> is_blank (original_text it)" "int (length (unit_text it)) \<le> mc"
      "int (length batch) + 1 \<le> mi" "tot + int (length (unit_text it)) \<le> mc"
      "batcher_loop mc mi items (batch @ [it]) (tot + int (length (unit_text it))) = Some bs"
proof (cases "is_blank (original_text it)")
  case True
  with run that(1) show ?thesis by (simp only: batcher_loop_blank)
next
  case nb: False
  show ?thesis
  proof (cases "mc < int (length (unit_text it))")
    case big: True
    have pos: "0 < mc"
    proof (rule ccontr)
      assume "\<not> 0 < mc"
      then have "mc \<le> 0" by simp
      from batcher_loop_diverges[OF nb this] run show False by simp
    qed
    define m where "m = nat mc"
    have mc: "mc = int m" "0 < m" using pos by (simp_all add: m_def)
    have lt: "int m < int (length (unit_text it))" using big mc by simp
    from run obtain out where
      "batcher_loop mc mi items [] (if batch \<noteq> [] then 0 else tot) = Some out"
      "bs = flush batch
            @ map (\<lambda>i. [chunk_ref (paragraph it) (unit_text it) m i])
                [0..<chunk_count (length (unit_text it)) m]
            @ out"
      unfolding mc(1) batcher_loop_oversized[OF nb lt mc(2)] by auto
    with that(2)[OF nb mc(1) mc(2)] lt show ?thesis by simp
  next
    case fits: False
    then have le: "int (length (unit_text it)) \<le> mc" by simp
    show ?thesis
    proof (cases "mi < int (length batch) + 1 \<or> mc < tot + int (length (unit_text it))")
      case True
      from run obtain out where
        "batcher_loop mc mi items [it] (int (length (unit_text it))) = Some out"
        "bs = flush batch @ out"
        unfolding batcher_loop_flush[OF nb le True] by auto
      with that(3)[OF nb le True] show ?thesis by simp
    next
      case False
      then have a: "int (length batch) + 1 \<le> mi" "tot + int (length (unit_text it)) \<le> mc"
        by simp_all
      from run that(4)[OF nb le a] show ?thesis
        unfolding batcher_loop_append[OF nb le a] by simp
    qed
  qed
qed

subsection \<open>Invariants of the batcher\<close>

lemma batcher_loop_total:
  assumes "0 < mc"
  shows "\<exists>bs. batcher_loop mc mi items batch tot = Some bs"
proof (induction items arbitrary: batch tot)
  case Nil
  show ?case by simp
next
  case (Cons it items)
  define m where "m = nat mc"
  have mc: "mc = int m" "0 < m" using assms by (simp_all add: m_def)
  consider (blank) "is_blank (original_text it)"
    | (big) "\<not> is_blank (original_text it)" "int m < int (length (unit_text it))"
    | (flush) "\<not> is_blank (original_text it)" "int (length (unit_text it)) \<le> mc"
        "mi < int (length batch) + 1 \<or> mc < tot + int (length (unit_text it))"
    | (app) "\<not> is_blank (original_text it)" "int (length (unit_text it)) \<le> mc"
        "int (length batch) + 1 \<le> mi" "tot + int (length (unit_text it)) \<le> mc"
    using mc by fastforce
  then show ?case
  proof cases
    case blank
    then show ?thesis using Cons.IH by (simp only: batcher_loop_blank)
  next
    case big
    obtain out where "batcher_loop mc mi items [] (if batch \<noteq> [] then 0 else tot) = Some out"
      using Cons.IH by blast
    then show ?thesis
      unfolding mc(1) batcher_loop_oversized[OF big mc(2)] by simp
  next
    case flush
    obtain out where "batcher_loop mc mi items [it] (int (length (unit_text it))) = Some out"
      using Cons.IH by blast
    then show ?thesis
      unfolding batcher_loop_flush[OF flush] by simp
  next
    case app
    show ?thesis
      unfolding batcher_loop_append[OF app] using Cons.IH by blast
  qed
qed

lemma unit_text_chunk_ref [simp]: "unit_text (chunk_ref p t m i) = take m (drop (i * m) t)"
  by (simp add: unit_text_def chunk_ref_def text_or_empty_def)

lemma paragraph_chunk_ref [simp]: "paragraph (chunk_ref p t m i) = p"
  by (simp add: chunk_ref_def)

lemma payload_simps [simp]:
  "payload [] = 0"
  "payload (x # xs) = int (length (unit_text x)) + payload xs"
  "payload (xs @ ys) = payload xs + payload ys"
  by (simp_all add: payload_def)

lemma payload_chunk: "payload [chunk_ref p t m i] \<le> int m"
proof -
  have "length (take m (drop (i * m) t)) = min (length t - i * m) m"
    by (simp only: length_take length_drop)
  then have "length (take m (drop (i * m) t)) \<le> m" by (simp only: min.cobounded2)
  then show ?thesis by (simp only: payload_simps unit_text_chunk_ref)
qed

lemma within_limits_chunk: "within_limits (int m) mi [chunk_ref p t m i]"
  unfolding within_limits_def using payload_chunk[of p t m i] by (simp del: payload_simps)

lemma within_limits_flush:
  "(batch \<noteq> [] \<longrightarrow> within_limits mc mi batch) \<Longrightarrow> \<forall>b\<in>set (flush batch). within_limits mc mi b"
  by (simp add: flush_def)

lemma batcher_loop_bounds:
  assumes "batcher_loop mc mi items batch tot = Some bs"
    and "tot = payload batch"
    and "batch \<noteq> [] \<longrightarrow> within_limits mc mi batch"
  shows "\<forall>b\<in>set bs. within_limits mc mi b"
  using assms
proof (induction items arbitrary: batch tot bs)
  case Nil
  from Nil(1) have "bs = flush batch" by (simp add: flush_def)
  then show ?case using within_limits_flush[OF Nil(3)] by (simp only:)
next
  case (Cons it items)
  from Cons.prems(1) show ?case
  proof (cases rule: batcher_loop_Cons_cases)
    case blank
    from Cons.IH[OF blank(2) Cons.prems(2,3)] show ?thesis .
  next
    case (oversized m out)
    have st: "(if batch \<noteq> [] then 0 else tot) = payload []"
      using Cons.prems(2) by (cases "batch = []") simp_all
    have a: "\<forall>b\<in>set out. within_limits mc mi b"
      using Cons.IH[OF oversized(5) st] by simp
    have b: "\<forall>b\<in>set (flush batch). within_limits mc mi b"
      using Cons.prems(3) by (rule within_limits_flush)
    have c: "\<forall>b\<in>set (map (\<lambda>i. [chunk_ref (paragraph it) (unit_text it) m i])
                       [0..<chunk_count (length (unit_text it)) m]). within_limits mc mi b"
      unfolding oversized(2) set_map ball_simps by (intro ballI within_limits_chunk)
    show ?thesis
      unfolding oversized(6) set_append ball_Un by (intro conjI b c a)
  next
    case (flush out)
    have p: "int (length (unit_text it)) = payload [it]" by simp
    have "payload [it] \<le> mc" using flush(2) by simp
    then have w: "[it] \<noteq> [] \<longrightarrow> within_limits mc mi [it]"
      unfolding within_limits_def by (simp del: payload_simps)
    have a: "\<forall>b\<in>set out. within_limits mc mi b"
      using Cons.IH[OF flush(4) p w] .
    have b: "\<forall>b\<in>set (flush batch). within_limits mc mi b"
      using Cons.prems(3) by (rule within_limits_flush)
    show ?thesis
      unfolding flush(5) set_append ball_Un by (intro conjI b a)
  next
    case append
    have st: "tot + int (length (unit_text it)) = payload (batch @ [it])"
      using Cons.prems(2) by simp
    have "within_limits mc mi (batch @ [it])"
      using append(3,4) Cons.prems(2) by (simp add: within_limits_def)
    then show ?thesis
      using Cons.IH[OF append(5) st] by simp
  qed
qed

lemma concat_flush [simp]: "concat (flush batch) = batch"
  by (cases "batch = []") (simp_all add: flush_def)

lemma concat_chunk_batches [simp]:
  "concat (map (\<lambda>i. [chunk_ref p t m i]) ks) = map (chunk_ref p t m) ks"
  by (induction ks) simp_all

lemma not_blank_Some: "\<not> is_blank t \<Longrightarrow> t \<noteq> None"
  by (cases t) (simp_all add: is_blank_def)

lemma translatable_of_Cons:
  "translatable_of (it # items) =
     (if is_blank (original_text it) then translatable_of items else it # translatable_of items)"
  by (simp add: translatable_of_def)

lemma translatable_of_Nil [simp]: "translatable_of [] = []"
  by (simp add: translatable_of_def)

lemma batcher_loop_Nil_concat:
  "batcher_loop mc mi [] batch tot = Some bs \<Longrightarrow> concat bs = batch"
  by (cases "batch = []") auto

lemma batcher_loop_texts:
  assumes "batcher_loop mc mi items batch tot = Some bs"
    and "\<forall>x\<in>set batch. original_text x \<noteq> None"
  shows "\<forall>x\<in>set (concat bs). original_text x \<noteq> None"
  using assms
proof (induction items arbitrary: batch tot bs)
  case Nil
  from Nil(2) show ?case unfolding batcher_loop_Nil_concat[OF Nil(1)] .
next
  case (Cons it items)
  from Cons.prems(1) show ?case
  proof (cases rule: batcher_loop_Cons_cases)
    case blank
    from Cons.IH[OF blank(2) Cons.prems(2)] show ?thesis .
  next
    case (oversized m out)
    have a: "\<forall>x\<in>set (concat out). original_text x \<noteq> None"
      using Cons.IH[OF oversized(5)] by simp
    have c: "\<forall>x\<in>set (map (chunk_ref (paragraph it) (unit_text it) m)
                       [0..<chunk_count (length (unit_text it)) m]). original_text x \<noteq> None"
      by (simp add: chunk_ref_def)
    have "concat bs = batch @ map (chunk_ref (paragraph it) (unit_text it) m)
                       [0..<chunk_count (length (unit_text it)) m] @ concat out"
      unfolding oversized(6) by simp
    then show ?thesis
      using a c Cons.prems(2) by (simp only: set_append ball_Un)
  next
    case (flush out)
    have "\<forall>x\<in>set [it]. original_text x \<noteq> None"
      using not_blank_Some[OF flush(1)] by simp
    from Cons.IH[OF flush(4) this] have a: "\<forall>x\<in>set (concat out). original_text x \<noteq> None" .
    have "concat bs = batch @ concat out" unfolding flush(5) by simp
    then show ?thesis
      using a Cons.prems(2) by (simp only: set_append ball_Un)
  next
    case append
    have "\<forall>x\<in>set (batch @ [it]). original_text x \<noteq> None"
      using not_blank_Some[OF append(1)] Cons.prems(2) by simp
    from Cons.IH[OF append(5) this] show ?thesis .
  qed
qed

lemma concat_slices: "concat (map (\<lambda>i. take m (drop (i * m) t)) [0..<k]) = take (k * m) t"
proof (induction k)
  case 0
  show ?case by simp
next
  case (Suc k)
  have "take (k * m) t @ take m (drop (k * m) t) = take (k * m + m) t"
    by (simp add: take_add)
  with Suc show ?case by (simp add: add.commute)
qed

lemma chunk_count_covers: "0 < m \<Longrightarrow> l \<le> chunk_count l m * m"
proof -
  assume m: "0 < m"
  have "l + m - 1 < ((l + m - 1) div m) * m + m"
    using m by (metis add.commute div_mult_mod_eq add_less_cancel_left mod_less_divisor mult.commute)
  then show ?thesis unfolding chunk_count_def using m by linarith
qed

lemma concat_chunks:
  "0 < m \<Longrightarrow> concat (map (\<lambda>i. take m (drop (i * m) t)) [0..<chunk_count (length t) m]) = t"
  by (simp add: concat_slices chunk_count_covers)

lemma chunk_count_pos: "0 < m \<Longrightarrow> 0 < l \<Longrightarrow> 0 < chunk_count l m"
  using chunk_count_step[of m l] by simp

lemma texts_at_simps [simp]:
  "texts_at p [] = []"
  "texts_at p (x # xs) = (if paragraph x = p then unit_text x # texts_at p xs else texts_at p xs)"
  "texts_at p (xs @ ys) = texts_at p xs @ texts_at p ys"
  by (simp_all add: texts_at_def)

lemma texts_at_chunks:
  "texts_at p (map (chunk_ref q t m) ks) =
     (if q = p then map (\<lambda>i. take m (drop (i * m) t)) ks else [])"
  by (induction ks) auto

lemma concat_texts_at_chunks:
  "0 < m \<Longrightarrow>
   concat (texts_at p (map (chunk_ref q t m) [0..<chunk_count (length t) m])) =
     (if q = p then t else [])"
  by (simp add: texts_at_chunks concat_chunks)

lemma batcher_loop_content:
  assumes "batcher_loop mc mi items batch tot = Some bs"
  shows "concat (texts_at p (concat bs)) =
           concat (texts_at p batch) @ concat (texts_at p (translatable_of items))"
  using assms
proof (induction items arbitrary: batch tot bs)
  case Nil
  then show ?case by (simp add: batcher_loop_Nil_concat[OF Nil(1)])
next
  case (Cons it items)
  from Cons.prems(1) show ?case
  proof (cases rule: batcher_loop_Cons_cases)
    case blank
    from Cons.IH[OF blank(2)] blank(1) show ?thesis by (simp add: translatable_of_Cons)
  next
    case (oversized m out)
    have bs: "concat bs = batch @ map (chunk_ref (paragraph it) (unit_text it) m)
                       [0..<chunk_count (length (unit_text it)) m] @ concat out"
      unfolding oversized(6) by simp
    have ih: "concat (texts_at p (concat out)) = concat (texts_at p (translatable_of items))"
      using Cons.IH[OF oversized(5)] by simp
    show ?thesis
      unfolding bs using ih oversized(1)
      by (simp add: translatable_of_Cons concat_texts_at_chunks[OF oversized(3)])
  next
    case (flush out)
    have bs: "concat bs = batch @ concat out" unfolding flush(5) by simp
    from Cons.IH[OF flush(4)] flush(1) show ?thesis
      unfolding bs by (simp add: translatable_of_Cons)
  next
    case append
    from Cons.IH[OF append(5)] append(1) show ?thesis by (simp add: translatable_of_Cons)
  qed
qed

lemma paragraph_chunks:
  "0 < k \<Longrightarrow> paragraph ` set (map (chunk_ref q t m) [0..<k]) = {q}"
  by (auto simp: image_iff)

lemma batcher_loop_paragraphs:
  assumes "batcher_loop mc mi items batch tot = Some bs"
  shows "paragraph ` set (concat bs) = paragraph ` (set batch \<union> set (translatable_of items))"
  using assms
proof (induction items arbitrary: batch tot bs)
  case Nil
  then show ?case by (simp add: batcher_loop_Nil_concat[OF Nil(1)])
next
  case (Cons it items)
  from Cons.prems(1) show ?case
  proof (cases rule: batcher_loop_Cons_cases)
    case blank
    from Cons.IH[OF blank(2)] blank(1) show ?thesis by (simp add: translatable_of_Cons)
  next
    case (oversized m out)
    have "0 < length (unit_text it)" using oversized(4) by linarith
    then have k: "0 < chunk_count (length (unit_text it)) m"
      using oversized(3) by (rule chunk_count_pos[rotated])
    have bs: "concat bs = batch @ map (chunk_ref (paragraph it) (unit_text it) m)
                       [0..<chunk_count (length (unit_text it)) m] @ concat out"
      unfolding oversized(6) by simp
    have tr: "translatable_of (it # items) = it # translatable_of items"
      using oversized(1) by (simp add: translatable_of_Cons)
    have "paragraph ` set (concat bs) =
            paragraph ` set batch \<union> {paragraph it} \<union> paragraph ` set (concat out)"
      unfolding bs set_append image_Un paragraph_chunks[OF k] by (simp only: Un_assoc)
    also have "paragraph ` set (concat out) = paragraph ` set (translatable_of items)"
      using Cons.IH[OF oversized(5)] by simp
    finally show ?thesis unfolding tr by auto
  next
    case (flush out)
    have tr: "translatable_of (it # items) = it # translatable_of items"
      using flush(1) by (simp add: translatable_of_Cons)
    have bs: "concat bs = batch @ concat out" unfolding flush(5) by simp
    have "paragraph ` set (concat out) = paragraph ` (set [it] \<union> set (translatable_of items))"
      using Cons.IH[OF flush(4)] .
    then show ?thesis
      unfolding bs tr set_append image_Un by auto
  next
    case append
    have tr: "translatable_of (it # items) = it # translatable_of items"
      using append(1) by (simp add: translatable_of_Cons)
    from Cons.IH[OF append(5)] show ?thesis unfolding tr by auto
  qed
qed

subsection \<open>Number and lengths of the chunks\<close>



subsection \<open>The batches yielded one by one\<close>

lemma batcher_take_finished:
  assumes "batcher_all mc mi st = Some bs"
  shows "batcher_take k mc mi st = take k bs"
  using assms
proof (induction k arbitrary: st bs)
  case 0
  show ?case by simp
next
  case (Suc k)
  show ?case
  proof (cases "batcher_next mc mi st")
    case None
    from batcher_all_end[OF None] Suc.prems have "bs = []" by simp
    with None show ?thesis by simp
  next
    case (Some r)
    obtain b st' where r: "r = (b, st')" by (cases r)
    from batcher_all_yield[OF Some[unfolded r]] Suc.prems
    have "map_option (\<lambda>out. b # out) (batcher_all mc mi st') = Some bs" by simp
    then obtain rest where rest: "batcher_all mc mi st' = Some rest" "bs = b # rest"
      by (cases "batcher_all mc mi st'") auto
    from Suc.IH[OF rest(1)] show ?thesis using Some r rest(2) by simp
  qed
qed

lemma batcher_next_Split_ok:
  assumes ok: "state_ok mc mi all (Split p t start items tot)"
    and lt: "start < int (length t)"
  shows "\<exists>b st'. batcher_next mc mi (Split p t start items tot) = Some (b, st') \<and>
           state_ok mc mi all st' \<and> is_chunk_batch mc all b"
proof -
  from ok obtain u i where u: "u \<in> set all" "\<not> is_blank (original_text u)"
    "mc < int (length (unit_text u))" "p = paragraph u" "t = unit_text u" "start = int i * mc"
    and items: "set items \<subseteq> set all" and tot: "tot = 0" by auto
  let ?b = "[\<lparr>paragraph = p, original_text = Some (py_slice t start (start + mc))\<rparr>]"
  have n: "batcher_next mc mi (Split p t start items tot) = Some (?b, Split p t (start + mc) items tot)"
    using lt by (simp only: batcher_next_Split if_True)
  have "start + mc = int (Suc i) * mc" using u(6) by (simp add: algebra_simps)
  then have s: "state_ok mc mi all (Split p t (start + mc) items tot)"
    using u items tot by (simp only: state_ok.simps) blast
  have c: "is_chunk_batch mc all ?b"
    unfolding is_chunk_batch_def using u lt by blast
  from n s c show ?thesis by blast
qed

lemma batcher_next_Loop_ok:
  assumes "batcher_next mc mi (Loop items batch tot) = Some (b, st')"
    and "state_ok mc mi all (Loop items batch tot)"
  shows "state_ok mc mi all st' \<and> batch_ok mc mi all b"
  using assms
proof (induction items arbitrary: batch tot)
  case Nil
  then show ?case by (auto simp: batch_ok_def split: if_splits)
next
  case (Cons it items)
  from Cons.prems(2) have it: "it \<in> set all" and items: "set items \<subseteq> set all"
    and batch: "set batch \<subseteq> set all" and tot: "tot = payload batch"
    and w: "batch \<noteq> [] \<longrightarrow> within_limits mc mi batch" by simp_all
  have pend: "batch \<noteq> [] \<Longrightarrow> batch_ok mc mi all batch"
    using w batch by (simp add: batch_ok_def)
  consider (blank) "is_blank (original_text it)"
    | (big) "\<not> is_blank (original_text it)" "mc < int (length (unit_text it))"
    | (flush) "\<not> is_blank (original_text it)" "int (length (unit_text it)) \<le> mc"
        "mi < int (length batch) + 1 \<or> mc < tot + int (length (unit_text it))"
    | (app) "\<not> is_blank (original_text it)" "int (length (unit_text it)) \<le> mc"
        "int (length batch) + 1 \<le> mi" "tot + int (length (unit_text it)) \<le> mc"
    by fastforce
  then show ?case
  proof cases
    case blank
    have ok: "state_ok mc mi all (Loop items batch tot)"
      using items batch tot w by simp
    from Cons.prems(1) have "batcher_next mc mi (Loop items batch tot) = Some (b, st')"
      by (simp only: batcher_next_blank[OF blank])
    from Cons.IH[OF this ok] show ?thesis .
  next
    case big
    have ne: "unit_text it \<noteq> []"
      using not_blank_nonempty[of "unit_text it"] big(1) by (simp add: is_blank_unit_text)
    then have pos: "0 < int (length (unit_text it))" by simp
    have sp: "state_ok mc mi all (Split (paragraph it) (unit_text it) 0 items 0)"
    proof -
      have "(0::int) = int 0 * mc" by simp
      with it big items show ?thesis by (simp only: state_ok.simps) blast
    qed
    show ?thesis
    proof (cases "batch = []")
      case False
      have "batcher_next mc mi (Loop (it # items) batch tot) =
            Some (batch, Split (paragraph it) (unit_text it) 0 items 0)"
        unfolding batcher_next_oversized[OF big] using False by (simp only: if_True simp_thms)
      with Cons.prems(1) have "b = batch" "st' = Split (paragraph it) (unit_text it) 0 items 0"
        by simp_all
      with sp pend[OF False] show ?thesis by simp
    next
      case True
      with tot have t0: "tot = 0" by simp
      have "batcher_next mc mi (Loop (it # items) batch tot) =
            batcher_next mc mi (Split (paragraph it) (unit_text it) 0 items 0)"
        unfolding batcher_next_oversized[OF big] using True t0 by (simp only: if_False simp_thms)
      with Cons.prems(1)
      have n: "batcher_next mc mi (Split (paragraph it) (unit_text it) 0 items 0) = Some (b, st')"
        by (simp only:)
      from batcher_next_Split_ok[OF sp pos] n show ?thesis
        by (auto simp: batch_ok_def simp del: batcher_next.simps)
    qed
  next
    case flush
    have "payload [it] \<le> mc" using flush(2) by simp
    then have ok: "state_ok mc mi all (Loop items [it] (int (length (unit_text it))))"
      using it items by (simp add: within_limits_def)
    show ?thesis
    proof (cases "batch = []")
      case False
      have "batcher_next mc mi (Loop (it # items) batch tot) =
            Some (batch, Loop items [it] (int (length (unit_text it))))"
        unfolding batcher_next_flush[OF flush] using False by (simp only: if_True simp_thms)
      with Cons.prems(1) have "b = batch" "st' = Loop items [it] (int (length (unit_text it)))"
        by simp_all
      with ok pend[OF False] show ?thesis by (simp only: simp_thms)
    next
      case True
      have "batcher_next mc mi (Loop (it # items) batch tot) =
            batcher_next mc mi (Loop items [it] (int (length (unit_text it))))"
        unfolding batcher_next_flush[OF flush] using True by (simp only: if_False simp_thms)
      with Cons.prems(1)
      have "batcher_next mc mi (Loop items [it] (int (length (unit_text it)))) = Some (b, st')"
        by (simp only:)
      from Cons.IH[OF this ok] show ?thesis .
    qed
  next
    case app
    have ok: "state_ok mc mi all (Loop items (batch @ [it]) (tot + int (length (unit_text it))))"
      using it items batch tot app(3,4) by (simp add: within_limits_def)
    from Cons.prems(1)
    have "batcher_next mc mi (Loop items (batch @ [it]) (tot + int (length (unit_text it)))) = Some (b, st')"
      by (simp only: batcher_next_append[OF app])
    from Cons.IH[OF this ok] show ?thesis .
  qed
qed

lemma batcher_next_ok:
  assumes "batcher_next mc mi st = Some (b, st')" "state_ok mc mi all st"
  shows "state_ok mc mi all st' \<and> batch_ok mc mi all b"
proof (cases st)
  case (Loop items batch tot)
  with assms show ?thesis using batcher_next_Loop_ok by blast
next
  case (Split p t start items tot)
  show ?thesis
  proof (cases "start < int (length t)")
    case True
    from batcher_next_Split_ok[OF assms(2)[unfolded Split] True] assms(1)[unfolded Split]
    show ?thesis by (auto simp: batch_ok_def simp del: batcher_next.simps)
  next
    case False
    from assms(2) Split have ok: "state_ok mc mi all (Loop items [] tot)" by simp
    from assms(1) False have "batcher_next mc mi (Loop items [] tot) = Some (b, st')"
      unfolding Split by (simp only: batcher_next_Split if_False)
    from batcher_next_Loop_ok[OF this ok] show ?thesis .
  qed
next
  case Stop
  with assms show ?thesis by simp
qed

lemma batcher_take_ok:
  assumes "state_ok mc mi all st"
  shows "\<forall>b\<in>set (batcher_take k mc mi st). batch_ok mc mi all b"
  using assms
proof (induction k arbitrary: st)
  case 0
  show ?case by simp
next
  case (Suc k)
  show ?case
  proof (cases "batcher_next mc mi st")
    case None
    then show ?thesis by simp
  next
    case (Some r)
    obtain b st' where r: "r = (b, st')" by (cases r)
    from batcher_next_ok[OF Some[unfolded r] Suc.prems] Suc.IH[of st']
    show ?thesis using Some r by simp
  qed
qed

lemma batcher_prefix_ok: "\<forall>b\<in>set (batcher_prefix k items mc mi). batch_ok mc mi items b"
  unfolding batcher_prefix_def by (rule batcher_take_ok) simp

lemma batcher_prefix_finished:
  "batcher items mc mi = Some bs \<Longrightarrow> batcher_prefix k items mc mi = take k bs"
  unfolding batcher_def batcher_loop_def batcher_prefix_def by (rule batcher_take_finished)

lemma chunk_batch_bounds:
  assumes "is_chunk_batch mc all b" "0 \<le> mc"
  shows "length b = 1 \<and> payload b \<le> mc"
proof -
  from assms(1) obtain u i where
    b: "b = [\<lparr>paragraph = paragraph u,
              original_text = Some (py_slice (unit_text u) (int i * mc) (int i * mc + mc))\<rparr>]"
    unfolding is_chunk_batch_def by blast
  have "0 \<le> int i * mc" using assms(2) by simp
  from py_slice_length[OF this assms(2), of "unit_text u"] show ?thesis
    unfolding b by (simp add: unit_text_def text_or_empty_def)
qed


subsection \<open>Finished runs\<close>

lemma batcher_total: "0 < mc \<Longrightarrow> batcher items mc mi \<noteq> None"
  unfolding batcher_def using batcher_loop_total[of mc mi items "[]" 0] by auto

lemma batcher_bounds:
  assumes "batcher items mc mi = Some bs"
  shows "\<forall>b\<in>set bs. within_limits mc mi b"
proof -
  have a: "(0::int) = payload []" by simp
  have b: "[] \<noteq> [] \<longrightarrow> within_limits mc mi []" by simp
  from batcher_loop_bounds[OF assms[unfolded batcher_def] a b] show ?thesis .
qed

subsection \<open>Evaluation on concrete inputs\<close>

lemmas batcher_eval =
  batcher_def batcher_loop_def batcher_prefix_def batcher_all.simps
  is_blank_def strip_def isspace_def text_or_empty_def unit_text_def
  py_slice_def slice_bound_def Let_def

lemma eval_small_items:
  "batcher [\<lparr>paragraph = 1::nat, original_text = Some ''ab''\<rparr>,
            \<lparr>paragraph = 2, original_text = Some ''abcdefg''\<rparr>] 3 2
     = Some [[\<lparr>paragraph = 1, original_text = Some ''ab''\<rparr>],
             [\<lparr>paragraph = 2, original_text = Some ''abc''\<rparr>],
             [\<lparr>paragraph = 2, original_text = Some ''def''\<rparr>],
             [\<lparr>paragraph = 2, original_text = Some ''g''\<rparr>]]"
  by (simp add: batcher_eval)

lemma is_blank_replicate_x: "0 < n \<Longrightarrow> \<not> is_blank (Some (replicate n CHR ''x''))"
  by (simp add: is_blank_Some isspace_def)


subsection \<open>The retry loop\<close>

lemma attempt_loop_raises:
  "attempt_loop w texts as last_err s = Inl (e, s') \<Longrightarrow> e = OutputError"
proof (induction as arbitrary: s last_err)
  case Nil
  then show ?case by (simp split: if_splits)
next
  case (Cons a as)
  show ?case
  proof (cases "try_body (service w (calls s) texts) texts")
    case (Inr translated)
    with Cons.prems show ?thesis by simp
  next
    case (Inl x)
    with Cons.prems Cons.IH show ?thesis by (auto simp: Let_def split: if_splits)
  qed
qed

lemma attempt_loop_spec:
  assumes "prints_all w"
  shows "\<exists>k\<le>length as.
      (\<forall>j<k. isl (try_body (service w (calls s + j) texts) texts)) \<and>
      (\<exists>r s'. attempt_loop w texts as last_err s = Inr (r, s') \<and>
         sleeps s' = sleeps s @ map backoff (take k as) \<and>
         (if k = length as
          then r = texts \<and> calls s' = calls s + k
          else try_body (service w (calls s + k) texts) texts = Inr r \<and>
               calls s' = calls s + k + 1))"
proof (induction as arbitrary: s last_err)
  case Nil
  from assms have "stdout w (ErrorLine last_err)" by (simp add: prints_all_def)
  then show ?case by simp
next
  case (Cons a as)
  show ?case
  proof (cases "try_body (service w (calls s) texts) texts")
    case (Inr translated)
    then show ?thesis by (intro exI[of _ 0]) simp
  next
    case (Inl e)
    define s1 where "s1 = s\<lparr>calls := calls s + 1, sleeps := sleeps s @ [3 / 2 * of_nat a],
        printed := printed s @ [WarnLine a (message e) (3 / 2 * of_nat a)]\<rparr>"
    from assms have pr: "stdout w (WarnLine a (message e) (3 / 2 * of_nat a))"
      by (simp add: prints_all_def)
    have step: "attempt_loop w texts (a # as) last_err s =
                attempt_loop w texts as (Some (message e)) s1"
      using Inl pr by (simp add: s1_def Let_def)
    have s1: "calls s1 = Suc (calls s)" "sleeps s1 = sleeps s @ [backoff a]"
      by (simp_all add: s1_def backoff_def)
    from Cons.IH[of s1 "Some (message e)"] obtain k r s' where k: "k \<le> length as"
      "\<forall>j<k. isl (try_body (service w (calls s1 + j) texts) texts)"
      "attempt_loop w texts as (Some (message e)) s1 = Inr (r, s')"
      "sleeps s' = sleeps s1 @ map backoff (take k as)"
      "if k = length as
       then r = texts \<and> calls s' = calls s1 + k
       else try_body (service w (calls s1 + k) texts) texts = Inr r \<and>
            calls s' = calls s1 + k + 1"
      by blast
    have fails: "\<forall>j<Suc k. isl (try_body (service w (calls s + j) texts) texts)"
    proof (intro allI impI)
      fix j assume "j < Suc k"
      show "isl (try_body (service w (calls s + j) texts) texts)"
      proof (cases j)
        case 0
        then show ?thesis using Inl by simp
      next
        case (Suc i)
        with \<open>j < Suc k\<close> k(2) s1(1) show ?thesis by simp
      qed
    qed
    have res: "attempt_loop w texts (a # as) last_err s = Inr (r, s') \<and>
         sleeps s' = sleeps s @ map backoff (take (Suc k) (a # as)) \<and>
         (if Suc k = length (a # as)
          then r = texts \<and> calls s' = calls s + Suc k
          else try_body (service w (calls s + Suc k) texts) texts = Inr r \<and>
               calls s' = calls s + Suc k + 1)"
      unfolding step using k(3,4,5) s1 by (simp split: if_splits)
    show ?thesis
    proof (intro exI[of _ "Suc k"] conjI)
      show "Suc k \<le> length (a # as)" using k(1) by simp
      show "\<forall>j<Suc k. isl (try_body (service w (calls s + j) texts) texts)" by (rule fails)
      show "\<exists>r s'. attempt_loop w texts (a # as) last_err s = Inr (r, s') \<and>
         sleeps s' = sleeps s @ map backoff (take (Suc k) (a # as)) \<and>
         (if Suc k = length (a # as)
          then r = texts \<and> calls s' = calls s + Suc k
          else try_body (service w (calls s + Suc k) texts) texts = Inr r \<and>
               calls s' = calls s + Suc k + 1)"
        using res by blast
    qed
  qed
qed

lemma retry_attempts: "[1..<RETRY_LIMIT + 1] = [1, 2, 3, 4]"
  by (simp add: RETRY_LIMIT_def upt_rec)

text \<open>
  With a standard output that takes every line, the client returns: some number \<open>k\<close>
  of attempts, at most \<open>RETRY_LIMIT\<close>, fail one after the other, the sleeps are those
  of the attempts \<open>1..k\<close>, and the result is the input list after \<open>RETRY_LIMIT\<close> failures
  and what attempt \<open>k + 1\<close> returned otherwise.
\<close>

lemma translate_batch_retries:
  assumes "prints_all w"
  shows "\<exists>k\<le>RETRY_LIMIT.
      (\<forall>j<k. isl (try_body (service w (calls s + j) texts) texts)) \<and>
      (\<exists>r s'. libretranslate_translate_batch w texts s = Inr (r, s') \<and>
         sleeps s' = sleeps s @ map backoff [1..<k + 1] \<and>
         (if k = RETRY_LIMIT
          then r = texts \<and> calls s' = calls s + RETRY_LIMIT
          else try_body (service w (calls s + k) texts) texts = Inr r \<and>
               calls s' = calls s + k + 1))"
proof -
  have len: "length [1..<RETRY_LIMIT + 1] = RETRY_LIMIT" by simp
  from attempt_loop_spec[OF assms, of "[1..<RETRY_LIMIT + 1]" s texts None, unfolded len]
  obtain k r s' where k: "k \<le> RETRY_LIMIT"
    "\<forall>j<k. isl (try_body (service w (calls s + j) texts) texts)"
    "attempt_loop w texts [1..<RETRY_LIMIT + 1] None s = Inr (r, s')"
    "sleeps s' = sleeps s @ map backoff (take k [1..<RETRY_LIMIT + 1])"
    "if k = RETRY_LIMIT
     then r = texts \<and> calls s' = calls s + k
     else try_body (service w (calls s + k) texts) texts = Inr r \<and> calls s' = calls s + k + 1"
    by blast
  have tk: "take k [1..<RETRY_LIMIT + 1] = [1..<k + 1]"
    using k(1) take_upt[of 1 k "RETRY_LIMIT + 1"] by (simp only: add.commute[of 1 k])
  have "libretranslate_translate_batch w texts s = Inr (r, s') \<and>
         sleeps s' = sleeps s @ map backoff [1..<k + 1] \<and>
         (if k = RETRY_LIMIT
          then r = texts \<and> calls s' = calls s + RETRY_LIMIT
          else try_body (service w (calls s + k) texts) texts = Inr r \<and>
               calls s' = calls s + k + 1)"
    unfolding libretranslate_translate_batch_def
    using k(3,5) k(4)[unfolded tk]
    by (cases "k = RETRY_LIMIT") (simp_all only: if_True if_False simp_thms)
  with k(1,2) show ?thesis by blast
qed

subsection \<open>Accumulation and writeback\<close>

lemma received_simps [simp]:
  "received p [] = []"
  "received p ((b, t) # prs) = (if paragraph b = p then t # received p prs else received p prs)"
  "received p (xs @ ys) = received p xs @ received p ys"
  by (simp_all add: received_def)

lemma accumulate_lookup:
  "accumulate prs accum p =
     (if received p prs = [] then accum p
      else Some ((case accum p of None \<Rightarrow> [] | Some l \<Rightarrow> l) @ received p prs))"
proof (induction prs arbitrary: accum)
  case Nil
  show ?case by simp
next
  case (Cons bt prs)
  obtain b t where bt: "bt = (b, t)" by (cases bt)
  show ?case
  proof (cases "paragraph b = p")
    case True
    then show ?thesis unfolding bt by (simp add: Cons.IH)
  next
    case False
    then show ?thesis unfolding bt by (simp add: Cons.IH)
  qed
qed

lemma accumulate_empty:
  "accumulate prs Map.empty p = (if received p prs = [] then None else Some (received p prs))"
  by (simp add: accumulate_lookup)

lemma accumulate_append: "accumulate (xs @ ys) accum = accumulate ys (accumulate xs accum)"
proof (induction xs arbitrary: accum)
  case Nil
  show ?case by simp
next
  case (Cons bt xs)
  obtain b t where bt: "bt = (b, t)" by (cases bt)
  show ?case unfolding bt by (simp only: append_Cons accumulate.simps Cons.IH)
qed

lemma translate_batches_arrivals:
  assumes "translate_batches w bs accum s = Inr (accum', s')"
  shows "accum' = accumulate (arrivals w bs s) accum"
  using assms
proof (induction bs arbitrary: accum s)
  case Nil
  then show ?case by simp
next
  case (Cons batch bs)
  show ?case
  proof (cases "libretranslate_translate_batch w (batch_texts batch) s")
    case (Inl err)
    with Cons.prems show ?thesis by simp
  next
    case (Inr r)
    obtain tl s1 where r: "r = (tl, s1)" by (cases r)
    from Cons.prems Inr r
    have "translate_batches w bs (accumulate (zip batch tl) accum) s1 = Inr (accum', s')"
      by simp
    from Cons.IH[OF this] show ?thesis using Inr r by (simp add: accumulate_append)
  qed
qed

lemma writeback_commits:
  "commits (writeback us accum doc) =
     commits doc @ map (\<lambda>u. (paragraph u, joined accum (paragraph u)))
                     (filter (\<lambda>u. accum (paragraph u) \<noteq> None) us)"
proof (induction us arbitrary: doc)
  case Nil
  show ?case by simp
next
  case (Cons u us)
  show ?case
  proof (cases "accum (paragraph u)")
    case None
    then show ?thesis by (simp add: Cons.IH)
  next
    case (Some chunks)
    then show ?thesis
      by (simp add: Cons.IH clear_and_set_paragraph_text_def joined_def)
  qed
qed

lemma writeback_text_of:
  "text_of (writeback us accum doc) p =
     (if accum p \<noteq> None \<and> p \<in> paragraph ` set us then joined accum p else text_of doc p)"
proof (induction us arbitrary: doc)
  case Nil
  show ?case by simp
next
  case (Cons u us)
  show ?case
  proof (cases "accum (paragraph u)")
    case None
    then show ?thesis by (auto simp add: Cons.IH)
  next
    case (Some chunks)
    then show ?thesis
      by (auto simp add: Cons.IH clear_and_set_paragraph_text_def joined_def)
  qed
qed

lemma batcher_constants_total:
  "\<exists>bs. batcher items MAX_TOTAL_CHARS_PER_BATCH MAX_ITEMS_PER_BATCH = Some bs"
  using batcher_total[of MAX_TOTAL_CHARS_PER_BATCH items MAX_ITEMS_PER_BATCH]
  by (simp add: MAX_TOTAL_CHARS_PER_BATCH_def)

text \<open>
  The loop of \<^verbatim>\<open>translate_docx\<close> takes the batches one by one from the generator; it
  does what the loop over the finished list of batches does.
\<close>

lemma translate_loop_batches:
  assumes "batcher_all MAX_TOTAL_CHARS_PER_BATCH MAX_ITEMS_PER_BATCH st = Some bs"
  shows "translate_loop w st accum s = Some (translate_batches w bs accum s)"
  using assms
proof (induction bs arbitrary: st accum s)
  case Nil
  have "batcher_next MAX_TOTAL_CHARS_PER_BATCH MAX_ITEMS_PER_BATCH st = None"
  proof (cases "batcher_next MAX_TOTAL_CHARS_PER_BATCH MAX_ITEMS_PER_BATCH st")
    case (Some r)
    obtain b st' where r: "r = (b, st')" by (cases r)
    from batcher_all_yield[OF Some[unfolded r]] Nil show ?thesis
      by (cases "batcher_all MAX_TOTAL_CHARS_PER_BATCH MAX_ITEMS_PER_BATCH st'") simp_all
  qed simp
  then show ?case by (subst translate_loop.simps) simp
next
  case (Cons b bs)
  show ?case
  proof (cases "batcher_next MAX_TOTAL_CHARS_PER_BATCH MAX_ITEMS_PER_BATCH st")
    case None
    from batcher_all_end[OF None] Cons.prems show ?thesis by simp
  next
    case (Some r)
    obtain b' st' where r: "r = (b', st')" by (cases r)
    from batcher_all_yield[OF Some[unfolded r]] Cons.prems
    have "map_option (\<lambda>out. b' # out)
            (batcher_all MAX_TOTAL_CHARS_PER_BATCH MAX_ITEMS_PER_BATCH st') = Some (b # bs)"
      by simp
    then have st': "batcher_all MAX_TOTAL_CHARS_PER_BATCH MAX_ITEMS_PER_BATCH st' = Some bs"
      and b': "b' = b"
      by (cases "batcher_all MAX_TOTAL_CHARS_PER_BATCH MAX_ITEMS_PER_BATCH st'"; simp)+
    show ?thesis
    proof (cases "libretranslate_translate_batch w (batch_texts b) s")
      case (Inl err)
      then show ?thesis using Some r b' by (subst translate_loop.simps) simp
    next
      case (Inr q)
      obtain tl s1 where q: "q = (tl, s1)" by (cases q)
      have "translate_loop w st accum s =
            translate_loop w st' (accumulate (zip b tl) accum) s1"
        using Some r b' Inr q by (subst translate_loop.simps) simp
      also have "\<dots> = Some (translate_batches w bs (accumulate (zip b tl) accum) s1)"
        by (rule Cons.IH[OF st'])
      finally show ?thesis using Inr q by simp
    qed
  qed
qed

lemma translate_docx_batches:
  "translate_docx w all_paras doc s =
     (case batcher (translatable_of all_paras) MAX_TOTAL_CHARS_PER_BATCH MAX_ITEMS_PER_BATCH of
        None \<Rightarrow> None
      | Some bs \<Rightarrow>
          (case translate_batches w bs Map.empty s of
             Inl (e, s') \<Rightarrow> Some (Inl e, doc, s')
           | Inr (accum, s') \<Rightarrow>
               Some (Inr accum, writeback (translatable_of all_paras) accum doc, s')))"
proof -
  obtain bs where
    bs: "batcher (translatable_of all_paras) MAX_TOTAL_CHARS_PER_BATCH MAX_ITEMS_PER_BATCH = Some bs"
    using batcher_constants_total by blast
  then have "batcher_all MAX_TOTAL_CHARS_PER_BATCH MAX_ITEMS_PER_BATCH
               (Loop (translatable_of all_paras) [] 0) = Some bs"
    by (simp add: batcher_def batcher_loop_def)
  from translate_loop_batches[OF this, of w Map.empty s]
  show ?thesis
    unfolding bs translate_docx_def translatable_of_def[symmetric] Let_def
    by (simp del: batcher_next.simps)
qed

lemma translate_docx_returns:
  assumes "batcher (translatable_of all_paras) MAX_TOTAL_CHARS_PER_BATCH MAX_ITEMS_PER_BATCH = Some bs"
    and "translate_batches w bs Map.empty s = Inr (accum, s')"
  shows "translate_docx w all_paras doc s =
           Some (Inr accum, writeback (translatable_of all_paras) accum doc, s')"
    and "accum = accumulate (arrivals w bs s) Map.empty"
  using assms translate_batches_arrivals[OF assms(2)]
  by (simp_all add: translate_docx_batches)


lemma joined_accumulate:
  "joined (accumulate prs Map.empty) p = concat (received p prs)"
  by (simp add: joined_def accumulate_empty)

subsection \<open>Identity translation\<close>

lemma attempt_loop_identity:
  assumes "echoes w" "prints_all w"
  shows "\<exists>s'. attempt_loop w texts as last_err s = Inr (texts, s')"
proof (induction as arbitrary: s last_err)
  case Nil
  from assms(2) have "stdout w (ErrorLine last_err)" by (simp add: prints_all_def)
  then show ?case by simp
next
  case (Cons a as)
  show ?case
  proof (cases "try_body (service w (calls s) texts) texts")
    case (Inl e)
    from assms(2) have "stdout w (WarnLine a (message e) (3 / 2 * of_nat a))"
      by (simp add: prints_all_def)
    with Inl show ?thesis using Cons.IH by (simp add: Let_def)
  next
    case (Inr ys)
    with assms(1) have "ys = texts" unfolding echoes_def by blast
    with Inr show ?thesis by simp
  qed
qed

lemma identity_translationI:
  assumes "echoes w" "prints_all w"
  shows "identity_translation w"
  unfolding identity_translation_def libretranslate_translate_batch_def
  using attempt_loop_identity[OF assms] by blast

lemma zip_batch_texts: "zip batch (batch_texts batch) = map (\<lambda>b. (b, unit_text b)) batch"
  by (induction batch) (simp_all add: batch_texts_def unit_text_def)

lemma translate_batches_identity:
  assumes "identity_translation w"
  shows "\<exists>s'. translate_batches w bs accum s =
           Inr (accumulate (map (\<lambda>b. (b, unit_text b)) (concat bs)) accum, s')"
proof (induction bs arbitrary: accum s)
  case Nil
  show ?case by simp
next
  case (Cons batch bs)
  from assms obtain s1 where
    r: "libretranslate_translate_batch w (batch_texts batch) s = Inr (batch_texts batch, s1)"
    unfolding identity_translation_def by blast
  from Cons.IH[of "accumulate (zip batch (batch_texts batch)) accum" s1]
  show ?case by (simp add: r zip_batch_texts accumulate_append)
qed

lemma received_texts_at: "received p (map (\<lambda>b. (b, unit_text b)) its) = texts_at p its"
  by (induction its) simp_all

lemma texts_at_Nil_iff: "texts_at p its = [] \<longleftrightarrow> p \<notin> paragraph ` set its"
  by (induction its) auto

lemma batcher_content:
  assumes "batcher items mc mi = Some bs"
  shows "concat (texts_at p (concat bs)) = concat (texts_at p (translatable_of items))"
  using batcher_loop_content[OF assms[unfolded batcher_def], of p] by simp

lemma batcher_paragraphs:
  assumes "batcher items mc mi = Some bs"
  shows "paragraph ` set (concat bs) = paragraph ` set (translatable_of items)"
  using batcher_loop_paragraphs[OF assms[unfolded batcher_def]] by simp

lemma translatable_of_idem [simp]: "translatable_of (translatable_of xs) = translatable_of xs"
  by (simp add: translatable_of_def)


lemma filter_same_key:
  assumes "distinct (map f xs)" "x \<in> set xs"
  shows "filter (\<lambda>v. f v = f x) xs = [x]"
  using assms
proof (induction xs)
  case Nil
  then show ?case by simp
next
  case (Cons y ys)
  show ?case
  proof (cases "y = x")
    case True
    from Cons.prems(1) have "\<forall>v\<in>set ys. f v \<noteq> f y" by (auto simp: image_iff)
    then have "filter (\<lambda>v. f v = f x) ys = []" using True by (simp add: filter_empty_conv)
    with True show ?thesis by simp
  next
    case False
    with Cons.prems have x: "x \<in> set ys" and d: "distinct (map f ys)" by simp_all
    from Cons.prems(1) x have "f y \<noteq> f x" by (auto simp: image_iff)
    with Cons.IH[OF d x] show ?thesis by simp
  qed
qed

text \<open>
  With an identity translation, also when units share a paragraph: the run returns,
  commits once for every non-blank unit in input order, and the entry of a paragraph
  and the text committed to it add up to the texts, in input order, of all non-blank
  units with this paragraph.
\<close>

lemma round_trip_shared:
  assumes "identity_translation w"
  shows "\<exists>accum doc' s'.
           translate_docx w all_paras doc s = Some (Inr accum, doc', s') \<and>
           commits doc' = commits doc @
             map (\<lambda>u. (paragraph u, concat (texts_at (paragraph u) (translatable_of all_paras))))
               (translatable_of all_paras) \<and>
           (\<forall>u\<in>set (translatable_of all_paras).
              (\<exists>chunks. accum (paragraph u) = Some chunks \<and>
                 concat chunks = concat (texts_at (paragraph u) (translatable_of all_paras))) \<and>
              text_of doc' (paragraph u)
                = concat (texts_at (paragraph u) (translatable_of all_paras)))"
proof -
  let ?tr = "translatable_of all_paras"
  obtain bs where bs: "batcher ?tr MAX_TOTAL_CHARS_PER_BATCH MAX_ITEMS_PER_BATCH = Some bs"
    using batcher_constants_total by blast
  define accum where
    "accum = accumulate (map (\<lambda>b. (b, unit_text b)) (concat bs)) (Map.empty :: 'a \<rightharpoonup> string list)"
  define doc' where "doc' = writeback ?tr accum doc"
  from translate_batches_identity[OF assms, of bs Map.empty s] obtain s' where
    tb: "translate_batches w bs Map.empty s = Inr (accum, s')"
    unfolding accum_def by blast
  note run = translate_docx_returns(1)[OF bs tb, of doc, folded doc'_def]
  have lookup: "accum p = (if p \<in> paragraph ` set ?tr then Some (texts_at p (concat bs)) else None)"
    for p
    unfolding accum_def accumulate_empty received_texts_at texts_at_Nil_iff
      batcher_paragraphs[OF bs] by simp
  have jn: "joined accum p = concat (texts_at p ?tr)" for p
    unfolding accum_def joined_accumulate received_texts_at
    using batcher_content[OF bs, of p] by simp
  have all: "filter (\<lambda>u. accum (paragraph u) \<noteq> None) ?tr = ?tr"
    by (rule filter_True) (simp add: lookup)
  have cm: "commits doc' = commits doc @
             map (\<lambda>u. (paragraph u, concat (texts_at (paragraph u) ?tr))) ?tr"
    unfolding doc'_def writeback_commits all jn ..
  have tx: "(\<exists>chunks. accum (paragraph u) = Some chunks \<and>
                 concat chunks = concat (texts_at (paragraph u) ?tr)) \<and>
            text_of doc' (paragraph u) = concat (texts_at (paragraph u) ?tr)"
    if mem: "u \<in> set ?tr" for u
  proof -
    from mem have a: "accum (paragraph u) = Some (texts_at (paragraph u) (concat bs))"
      by (simp add: lookup)
    then have "accum (paragraph u) \<noteq> None \<and> paragraph u \<in> paragraph ` set ?tr"
      using mem by simp
    then have t: "text_of doc' (paragraph u) = concat (texts_at (paragraph u) ?tr)"
      unfolding doc'_def writeback_text_of jn by simp
    from a batcher_content[OF bs, of "paragraph u"] t show ?thesis by simp
  qed
  show ?thesis
    using run cm tx by blast
qed

subsection \<open>The example worlds\<close>

lemma unreachable_any:
  "libretranslate_translate_batch unreachable texts s
     = Inr (texts, s\<lparr>calls := calls s + 4, sleeps := sleeps s @ [3 / 2, 3, 9 / 2, 6],
              printed := printed s @
                [WarnLine 1 ''Connection refused'' (3 / 2), WarnLine 2 ''Connection refused'' 3,
                 WarnLine 3 ''Connection refused'' (9 / 2), WarnLine 4 ''Connection refused'' 6,
                 ErrorLine (Some ''Connection refused'')]\<rparr>)"
  unfolding libretranslate_translate_batch_def retry_attempts
  by (simp add: unreachable_def Let_def)

lemma short_reply_any:
  "libretranslate_translate_batch short_reply texts s = Inr ([''x''], s\<lparr>calls := calls s + 1\<rparr>)"
  unfolding libretranslate_translate_batch_def retry_attempts
  by (simp add: short_reply_def)


lemma identity_unreachable: "identity_translation unreachable"
  unfolding identity_translation_def unreachable_any by blast

lemma prints_all_unreachable: "prints_all unreachable"
  by (simp add: prints_all_def unreachable_def)

lemmas docx_eval =
  translate_docx_batches translatable_of_def batcher_eval
  MAX_TOTAL_CHARS_PER_BATCH_def MAX_ITEMS_PER_BATCH_def
  batch_texts_def clear_and_set_paragraph_text_def blank_document_def run_commits_def
  run_accum_def run_text_def

subsection \<open>Replies of the right length\<close>

text \<open>
  When the standard output takes every line and every list that the service returns
  has the length of the list it was sent, the run returns and each non-blank unit is
  committed, in input order, with the concatenation of all the strings received for
  its paragraph.
\<close>

lemma attempt_loop_length:
  assumes "same_length w" "prints_all w"
  shows "\<exists>r s'. attempt_loop w texts as last_err s = Inr (r, s') \<and> length r = length texts"
proof (induction as arbitrary: s last_err)
  case Nil
  from assms(2) have "stdout w (ErrorLine last_err)" by (simp add: prints_all_def)
  then show ?case by simp
next
  case (Cons a as)
  show ?case
  proof (cases "try_body (service w (calls s) texts) texts")
    case (Inl e)
    from assms(2) have "stdout w (WarnLine a (message e) (3 / 2 * of_nat a))"
      by (simp add: prints_all_def)
    with Inl show ?thesis using Cons.IH by (simp add: Let_def)
  next
    case (Inr ys)
    with assms(1) have "length ys = length texts" unfolding same_length_def by blast
    with Inr show ?thesis by simp
  qed
qed

lemma translate_batches_same_length:
  assumes "same_length w" "prints_all w"
  shows "\<exists>accum' s'. translate_batches w bs accum s = Inr (accum', s') \<and>
           map fst (arrivals w bs s) = concat bs"
proof (induction bs arbitrary: accum s)
  case Nil
  show ?case by simp
next
  case (Cons batch bs)
  from attempt_loop_length[OF assms, of "batch_texts batch" "[1..<RETRY_LIMIT + 1]" None s]
  obtain tl s1 where
    r: "libretranslate_translate_batch w (batch_texts batch) s = Inr (tl, s1)"
    and "length tl = length (batch_texts batch)"
    unfolding libretranslate_translate_batch_def by blast
  then have "length tl = length batch" by (simp add: batch_texts_def)
  then have z: "map fst (zip batch tl) = batch" by simp
  from Cons.IH[of "accumulate (zip batch tl) accum" s1] show ?case
    by (simp add: r z)
qed

lemma received_Nil_iff: "received p prs = [] \<longleftrightarrow> p \<notin> paragraph ` set (map fst prs)"
  by (induction prs) (auto simp: received_def)

lemma translate_docx_general:
  assumes "translate_docx w all_paras doc s = Some (Inr accum, doc', s')"
  shows "\<exists>bs.
       batcher (translatable_of all_paras) MAX_TOTAL_CHARS_PER_BATCH MAX_ITEMS_PER_BATCH = Some bs \<and>
       (\<forall>p. accum p = (if received p (arrivals w bs s) = [] then None
                       else Some (received p (arrivals w bs s)))) \<and>
       commits doc' = commits doc @
         map (\<lambda>u. (paragraph u, concat (received (paragraph u) (arrivals w bs s))))
           (filter (\<lambda>u. received (paragraph u) (arrivals w bs s) \<noteq> [])
              (translatable_of all_paras)) \<and>
       (\<forall>p. text_of doc' p =
          (if received p (arrivals w bs s) \<noteq> [] \<and> p \<in> paragraph ` set (translatable_of all_paras)
           then concat (received p (arrivals w bs s)) else text_of doc p))"
proof -
  let ?tr = "translatable_of all_paras"
  obtain bs where bs: "batcher ?tr MAX_TOTAL_CHARS_PER_BATCH MAX_ITEMS_PER_BATCH = Some bs"
    using batcher_constants_total by blast
  from assms obtain s1 where tb: "translate_batches w bs Map.empty s = Inr (accum, s1)"
    unfolding translate_docx_batches bs by (auto split: sum.splits)
  from translate_docx_returns(1)[OF bs tb, of doc] assms
  have doc': "doc' = writeback ?tr accum doc" by simp
  note accum = translate_docx_returns(2)[OF bs tb]
  have lk: "\<forall>p. accum p = (if received p (arrivals w bs s) = [] then None
                       else Some (received p (arrivals w bs s)))"
    unfolding accum accumulate_empty by simp
  have ne: "(accum p \<noteq> None) = (received p (arrivals w bs s) \<noteq> [])" for p
    using lk by simp
  have jn: "joined accum p = concat (received p (arrivals w bs s))" for p
    unfolding accum by (rule joined_accumulate)
  have cm: "commits doc' = commits doc @
         map (\<lambda>u. (paragraph u, concat (received (paragraph u) (arrivals w bs s))))
           (filter (\<lambda>u. received (paragraph u) (arrivals w bs s) \<noteq> []) ?tr)"
    unfolding doc' writeback_commits ne jn ..
  have tx: "\<forall>p. text_of doc' p =
          (if received p (arrivals w bs s) \<noteq> [] \<and> p \<in> paragraph ` set ?tr
           then concat (received p (arrivals w bs s)) else text_of doc p)"
    unfolding doc' writeback_text_of ne jn by simp
  show ?thesis using bs lk cm tx by blast
qed

lemma commits_when_lengths_match:
  assumes "same_length w" "prints_all w"
  shows "\<exists>accum doc' s'.
           translate_docx w all_paras doc s = Some (Inr accum, doc', s') \<and>
           map fst (commits doc') =
             map fst (commits doc) @ map paragraph (translatable_of all_paras)"
proof -
  let ?tr = "translatable_of all_paras"
  obtain bs where bs: "batcher ?tr MAX_TOTAL_CHARS_PER_BATCH MAX_ITEMS_PER_BATCH = Some bs"
    using batcher_constants_total by blast
  from translate_batches_same_length[OF assms, of bs Map.empty s] obtain accum s' where
    tb: "translate_batches w bs Map.empty s = Inr (accum, s')"
    and items: "map fst (arrivals w bs s) = concat bs" by blast
  define doc' where "doc' = writeback ?tr accum doc"
  note run = translate_docx_returns(1)[OF bs tb, of doc, folded doc'_def]
  note accum = translate_docx_returns(2)[OF bs tb]
  have "accum p \<noteq> None" if "p \<in> paragraph ` set ?tr" for p
    using that unfolding accum accumulate_empty received_Nil_iff items
      batcher_paragraphs[OF bs] by simp
  then have all: "filter (\<lambda>u. accum (paragraph u) \<noteq> None) ?tr = ?tr"
    by (intro filter_True) simp
  have "map fst (commits doc') = map fst (commits doc) @ map paragraph ?tr"
    unfolding doc'_def writeback_commits all by (simp add: comp_def)
  with run show ?thesis by blast
qed

section \<open>Claims about the batcher\<close>



text \<open>
  Claim C6, as amended. Every batch that the generator yields, in a run that ends or
  not, and for any two limits, is non-empty and is either made of units of the input,
  with a total payload of at most \<open>max_total_chars\<close> and at most \<open>max 1 max_items\<close>
  items, or a singleton holding one chunk of an oversized unit of the input. The bound
  on the number of items is \<open>max 1 max_items\<close> and not \<open>max_items\<close>: a unit that fits
  always starts a batch of its own, also when \<open>max_items\<close> is below 1.
\<close>

theorem batcher_batches_classified:
  "(\<forall>k. \<forall>b\<in>set (batcher_prefix k items max_total_chars max_items).
      b \<noteq> [] \<and>
      ((set b \<subseteq> set items \<and> payload b \<le> max_total_chars \<and>
          int (length b) \<le> max 1 max_items)
       \<or> is_chunk_batch max_total_chars items b)) \<and>
   (\<forall>bs. batcher items max_total_chars max_items = Some bs \<longrightarrow>
      (\<forall>b\<in>set bs. b \<noteq> [] \<and>
         ((set b \<subseteq> set items \<and> payload b \<le> max_total_chars \<and>
             int (length b) \<le> max 1 max_items)
          \<or> is_chunk_batch max_total_chars items b)))"
proof -
  have ok: "b \<noteq> [] \<and>
      ((set b \<subseteq> set items \<and> payload b \<le> max_total_chars \<and>
          int (length b) \<le> max 1 max_items)
       \<or> is_chunk_batch max_total_chars items b)"
    if "b \<in> set (batcher_prefix k items max_total_chars max_items)" for b k
  proof -
    from batcher_prefix_ok that have "batch_ok max_total_chars max_items items b" by blast
    then consider "within_limits max_total_chars max_items b" "set b \<subseteq> set items"
      | "is_chunk_batch max_total_chars items b"
      unfolding batch_ok_def by blast
    then show ?thesis
    proof cases
      case 1
      then show ?thesis unfolding within_limits_def by blast
    next
      case 2
      then have "b \<noteq> []" unfolding is_chunk_batch_def by blast
      with 2 show ?thesis by blast
    qed
  qed
  show ?thesis
  proof (intro conjI allI impI ballI)
    fix k b
    assume "b \<in> set (batcher_prefix k items max_total_chars max_items)"
    from ok[OF this]
    show "b \<noteq> []"
      and "(set b \<subseteq> set items \<and> payload b \<le> max_total_chars \<and>
             int (length b) \<le> max 1 max_items)
           \<or> is_chunk_batch max_total_chars items b"
      by blast+
  next
    fix bs b
    assume run: "batcher items max_total_chars max_items = Some bs" and b: "b \<in> set bs"
    from batcher_prefix_finished[OF run, of "length bs"] b
    have "b \<in> set (batcher_prefix (length bs) items max_total_chars max_items)" by simp
    from ok[OF this]
    show "b \<noteq> []"
      and "(set b \<subseteq> set items \<and> payload b \<le> max_total_chars \<and>
             int (length b) \<le> max 1 max_items)
           \<or> is_chunk_batch max_total_chars items b"
      by blast+
  qed
qed

theorem batcher_batches_classified_witness:
  "batcher_prefix 2 [\<lparr>paragraph = 1::nat, original_text = Some ''ab''\<rparr>] 0 5
     = [[\<lparr>paragraph = 1, original_text = Some []\<rparr>], [\<lparr>paragraph = 1, original_text = Some []\<rparr>]]
   \<and> is_chunk_batch 0 [\<lparr>paragraph = 1::nat, original_text = Some ''ab''\<rparr>]
        [\<lparr>paragraph = 1, original_text = Some []\<rparr>]"
proof -
  let ?its = "[\<lparr>paragraph = 1::nat, original_text = Some ''ab''\<rparr>]"
  let ?c = "[\<lparr>paragraph = 1::nat, original_text = Some []\<rparr>]"
  have run: "batcher_prefix 2 ?its 0 5 = [?c, ?c]"
    by (simp add: batcher_eval eval_nat_numeral)
  then have mem: "?c \<in> set (batcher_prefix 2 ?its 0 5)" by simp
  note cl = batcher_batches_classified[of ?its 0 5, THEN conjunct1, rule_format, OF mem,
      THEN conjunct2]
  have "\<not> set ?c \<subseteq> set ?its" by simp
  with cl have "is_chunk_batch 0 ?its ?c" by blast
  with run show ?thesis by (intro conjI)
qed

text \<open>
  The claim as stated fails for \<open>max_items = 0\<close>: the batch holds one item, which is
  more than \<open>max_items\<close>, and the item is a whole unit that fits, not a chunk.
\<close>

theorem batcher_zero_items_counterexample:
  "batcher [\<lparr>paragraph = 1::nat, original_text = Some ''a''\<rparr>] 5 0
     = Some [[\<lparr>paragraph = 1, original_text = Some ''a''\<rparr>]]
   \<and> \<not> int (length [\<lparr>paragraph = 1::nat, original_text = Some ''a''\<rparr>]) \<le> 0
   \<and> \<not> (5::int) < int (length ''a'')"
  by (simp add: batcher_eval)

text \<open>
  Claim C8. On the units \<^verbatim>\<open>""\<close>, \<^verbatim>\<open>"Halo dunia"\<close> and \<^verbatim>\<open>"x" * 25000\<close> (the empty string is
  written \<open>[]\<close>) with the limits 20000 and 50, the batcher skips the first unit and
  emits the second unit as one batch, then the first 20000 and the last 5000
  characters of the third, each as a singleton batch, in this order.
\<close>

theorem batcher_concrete_scenario:
  "batcher [\<lparr>paragraph = 1::nat, original_text = Some []\<rparr>,
            \<lparr>paragraph = 2, original_text = Some ''Halo dunia''\<rparr>,
            \<lparr>paragraph = 3, original_text = Some (replicate 25000 CHR ''x'')\<rparr>] 20000 50
     = Some [[\<lparr>paragraph = 2, original_text = Some ''Halo dunia''\<rparr>],
             [\<lparr>paragraph = 3, original_text = Some (replicate 20000 CHR ''x'')\<rparr>],
             [\<lparr>paragraph = 3, original_text = Some (replicate 5000 CHR ''x'')\<rparr>]]"
proof -
  let ?u1 = "\<lparr>paragraph = 1::nat, original_text = Some []\<rparr>"
  let ?u2 = "\<lparr>paragraph = 2::nat, original_text = Some ''Halo dunia''\<rparr>"
  let ?u3 = "\<lparr>paragraph = 3::nat, original_text = Some (replicate 25000 CHR ''x'')\<rparr>"
  have b1: "is_blank (original_text ?u1)" by (simp add: is_blank_def strip_def)
  have n2: "\<not> is_blank (original_text ?u2)" by (simp add: is_blank_def strip_def isspace_def)
  have t2: "unit_text ?u2 = ''Halo dunia''" by (simp add: unit_text_def text_or_empty_def)
  have n3: "\<not> is_blank (original_text ?u3)" using is_blank_replicate_x[of 25000] by simp
  have t3: "unit_text ?u3 = replicate 25000 CHR ''x''" by (simp add: unit_text_def text_or_empty_def)
  have s1: "batcher_loop 20000 50 [?u1, ?u2, ?u3] [] 0 = batcher_loop 20000 50 [?u2, ?u3] [] 0"
    by (rule batcher_loop_blank[OF b1])
  have s2: "batcher_loop 20000 50 [?u2, ?u3] [] 0 = batcher_loop 20000 50 [?u3] [?u2] 10"
    using batcher_loop_append[OF n2, of 20000 "[]" 50 0 "[?u3]"] by (simp add: t2)
  have big: "int 20000 < int (length (unit_text ?u3))" by (simp add: t3)
  have cnt: "chunk_count 25000 20000 = 2" by (simp add: chunk_count_def)
  have r: "[0..<2] = [0, 1]" by (simp add: upt_rec)
  have s3: "batcher_loop 20000 50 [?u3] [?u2] 10 =
              Some [[?u2], [\<lparr>paragraph = 3, original_text = Some (replicate 20000 CHR ''x'')\<rparr>],
                    [\<lparr>paragraph = 3, original_text = Some (replicate 5000 CHR ''x'')\<rparr>]]"
    using batcher_loop_oversized[OF n3 big, of 50 "[]" "[?u2]" 10]
    by (simp add: t3 cnt r flush_def chunk_ref_def)
  show ?thesis unfolding batcher_def s1 s2 s3 ..
qed

text \<open>
  Claim C9, as amended. For \<open>max_total_chars\<close> at least 0 and \<open>max_items\<close> at least 1,
  every batch that the generator yields, in a run that ends or not, is non-empty, has
  a total payload of at most \<open>max_total_chars\<close> and has at most \<open>max_items\<close> items; a
  singleton that holds a chunk of an oversized unit is such a batch, with a chunk of
  at most \<open>max_total_chars\<close> characters.
\<close>

theorem batcher_within_both_limits:
  assumes "0 \<le> max_total_chars" and "1 \<le> max_items"
  shows "(\<forall>k. \<forall>b\<in>set (batcher_prefix k items max_total_chars max_items).
            b \<noteq> [] \<and> payload b \<le> max_total_chars \<and> int (length b) \<le> max_items) \<and>
         (\<forall>bs. batcher items max_total_chars max_items = Some bs \<longrightarrow>
            (\<forall>b\<in>set bs. b \<noteq> [] \<and> payload b \<le> max_total_chars \<and>
               int (length b) \<le> max_items)) \<and>
         (\<forall>b. is_chunk_batch max_total_chars items b \<longrightarrow>
            length b = 1 \<and> payload b \<le> max_total_chars)"
proof -
  have ok: "b \<noteq> [] \<and> payload b \<le> max_total_chars \<and> int (length b) \<le> max_items"
    if "b \<in> set (batcher_prefix k items max_total_chars max_items)" for b k
  proof -
    from batcher_prefix_ok that have "batch_ok max_total_chars max_items items b" by blast
    then consider "within_limits max_total_chars max_items b"
      | "is_chunk_batch max_total_chars items b"
      unfolding batch_ok_def by blast
    then show ?thesis
    proof cases
      case 1
      then show ?thesis using assms(2) unfolding within_limits_def by simp
    next
      case 2
      from chunk_batch_bounds[OF 2 assms(1)] assms(2) show ?thesis by auto
    qed
  qed
  show ?thesis
  proof (intro conjI allI impI ballI)
    fix k b
    assume "b \<in> set (batcher_prefix k items max_total_chars max_items)"
    from ok[OF this]
    show "b \<noteq> []" "payload b \<le> max_total_chars" "int (length b) \<le> max_items"
      by blast+
  next
    fix bs b
    assume run: "batcher items max_total_chars max_items = Some bs" and b: "b \<in> set bs"
    from batcher_prefix_finished[OF run, of "length bs"] b
    have "b \<in> set (batcher_prefix (length bs) items max_total_chars max_items)" by simp
    from ok[OF this]
    show "b \<noteq> []" "payload b \<le> max_total_chars" "int (length b) \<le> max_items"
      by blast+
  next
    fix b
    assume "is_chunk_batch max_total_chars items b"
    from chunk_batch_bounds[OF this assms(1)]
    show "length b = 1" "payload b \<le> max_total_chars" by blast+
  qed
qed

theorem batcher_within_both_limits_witness:
  "(0::int) \<le> 0 \<and> (1::int) \<le> 1
   \<and> batcher_prefix 2 [\<lparr>paragraph = 1::nat, original_text = Some ''ab''\<rparr>] 0 1
       = [[\<lparr>paragraph = 1, original_text = Some []\<rparr>], [\<lparr>paragraph = 1, original_text = Some []\<rparr>]]
   \<and> payload [\<lparr>paragraph = 1::nat, original_text = Some []\<rparr>] \<le> 0
   \<and> int (length [\<lparr>paragraph = 1::nat, original_text = Some []\<rparr>]) \<le> 1"
proof -
  let ?its = "[\<lparr>paragraph = 1::nat, original_text = Some ''ab''\<rparr>]"
  let ?c = "[\<lparr>paragraph = 1::nat, original_text = Some []\<rparr>]"
  have h0: "(0::int) \<le> 0" by simp
  have h1: "(1::int) \<le> 1" by simp
  have run: "batcher_prefix 2 ?its 0 1 = [?c, ?c]"
    by (simp add: batcher_eval eval_nat_numeral)
  then have mem: "?c \<in> set (batcher_prefix 2 ?its 0 1)" by simp
  note lim = batcher_within_both_limits[OF h0 h1, of ?its, THEN conjunct1, rule_format,
      OF mem, THEN conjunct2]
  from h0 h1 run lim show ?thesis by (intro conjI) (elim conjE, assumption)+
qed

text \<open>
  The claim as stated fails for a negative \<open>max_total_chars\<close>: with the limit \<open>-1\<close> the
  first batch that the generator yields for the unit \<^verbatim>\<open>"ab"\<close> holds the slice
  \<^verbatim>\<open>"ab"[0:-1]\<close>, one character, which is more than the limit; \<open>max_items\<close> is 50.
\<close>

theorem batcher_negative_limit_counterexample:
  "batcher_prefix 1 [\<lparr>paragraph = 1::nat, original_text = Some ''ab''\<rparr>] (- 1) 50
     = [[\<lparr>paragraph = 1, original_text = Some ''a''\<rparr>]]
   \<and> \<not> payload [\<lparr>paragraph = 1::nat, original_text = Some ''a''\<rparr>] \<le> - 1
   \<and> (1::int) \<le> 50"
  by (simp add: batcher_eval payload_def)

section \<open>Claims about the translation client\<close>

text \<open>
  Claim C4. The claim asks that the client never raises to its caller. The handler
  catches every exception of the \<^verbatim>\<open>try\<close> block and then prints a warning that quotes
  the text of the exception, outside the block; this text comes from the remote
  service. Here the service answers the first request with the status 500 and a reason
  with an accented letter, and the standard output takes ASCII characters only: the
  \<^verbatim>\<open>print\<close> of the handler raises, and the exception leaves the client after one request,
  with no sleep and no retry. With a standard output that takes every line the same
  service leads to four requests, the four sleeps and the input list as the result
  (in general, lemma \<open>translate_batch_retries\<close>).
\<close>

theorem translate_batch_print_raises:
  "libretranslate_translate_batch accented_error [''Halo dunia''] fresh_net
     = Inl (OutputError, \<lparr>calls = 1, sleeps = [], printed = []\<rparr>)
   \<and> (\<exists>s'. libretranslate_translate_batch (accented_error\<lparr>stdout := (\<lambda>l. True)\<rparr>)
              [''Halo dunia''] fresh_net = Inr ([''Halo dunia''], s')
            \<and> calls s' = 4 \<and> sleeps s' = [3 / 2, 3, 9 / 2, 6])"
  unfolding libretranslate_translate_batch_def retry_attempts
  by (simp add: accented_error_def ascii_only_def fresh_net_def Let_def)

text \<open>
  Claim C5. The claim asks that a list answer with the wrong number of elements is
  treated as a failure. The code returns any list answer as it is: for two texts and
  a service answering with a one-element list, the first attempt returns that list of
  length one, with no retry and no sleep. Only the string answer is checked against
  the number of texts (\<^verbatim>\<open>len(texts) == 1\<close>).
\<close>

theorem translate_batch_short_list:
  "libretranslate_translate_batch short_reply [''a'', ''b''] fresh_net
     = Inr ([''x''], \<lparr>calls = 1, sleeps = [], printed = []\<rparr>)"
  unfolding libretranslate_translate_batch_def retry_attempts
  by (simp add: short_reply_def fresh_net_def)

section \<open>Claims about accumulation and writeback\<close>

text \<open>
  Claim C1. The claim asks that every non-blank unit is committed, in input order.
  The loop of the writeback commits a unit only when its paragraph has an entry in
  the accumulator, and the entries come from \<^verbatim>\<open>zip(batch, translated_list)\<close>: when the
  service answers a batch of two texts with a one-element list, the client returns
  that list (claim C5), the second unit gets no entry and only the first paragraph is
  committed.
\<close>

theorem short_reply_drops_commit:
  "run_commits (translate_docx short_reply
      [\<lparr>paragraph = 1::nat, original_text = Some ''a''\<rparr>,
       \<lparr>paragraph = 2, original_text = Some ''b''\<rparr>] blank_document fresh_net)
     = [(1, ''x'')]"
  by (simp add: docx_eval short_reply_any)

text \<open>
  Claim C3. The units that \<^verbatim>\<open>translate_docx\<close> makes from a document have distinct
  paragraphs. When the client returns every list of texts as it is, \<^verbatim>\<open>translate_docx\<close>
  returns and commits once for every non-blank unit, in input order, the unit's own
  text; this text is what its paragraph holds at the end, and the entry of the
  paragraph in the accumulator, which lists the chunks of a split unit in the order
  of accumulation, concatenates to it.
\<close>

theorem round_trip_identity:
  assumes "identity_translation w" and "distinct (map paragraph all_paras)"
  shows "\<exists>accum doc' s'.
           translate_docx w all_paras doc s = Some (Inr accum, doc', s') \<and>
           commits doc' = commits doc @
             map (\<lambda>u. (paragraph u, unit_text u)) (translatable_of all_paras) \<and>
           (\<forall>u\<in>set all_paras. \<not> is_blank (original_text u) \<longrightarrow>
              original_text u = Some (text_of doc' (paragraph u)) \<and>
              (\<exists>chunks. accum (paragraph u) = Some chunks \<and>
                 original_text u = Some (concat chunks)))"
proof -
  let ?tr = "translatable_of all_paras"
  from round_trip_shared[OF assms(1), of all_paras doc s] obtain accum doc' s' where
    run: "translate_docx w all_paras doc s = Some (Inr accum, doc', s')" and
    cm: "commits doc' = commits doc @
           map (\<lambda>u. (paragraph u, concat (texts_at (paragraph u) ?tr))) ?tr" and
    tx: "\<forall>u\<in>set ?tr.
           (\<exists>chunks. accum (paragraph u) = Some chunks \<and>
              concat chunks = concat (texts_at (paragraph u) ?tr)) \<and>
           text_of doc' (paragraph u) = concat (texts_at (paragraph u) ?tr)"
    by blast
  have d: "distinct (map paragraph ?tr)"
    unfolding translatable_of_def using assms(2) by (rule distinct_map_filter)
  have own: "concat (texts_at (paragraph u) ?tr) = unit_text u" if "u \<in> set ?tr" for u
    unfolding texts_at_def filter_same_key[OF d that] by simp
  have cm': "commits doc' = commits doc @ map (\<lambda>u. (paragraph u, unit_text u)) ?tr"
    unfolding cm using own by simp
  have each: "original_text u = Some (text_of doc' (paragraph u)) \<and>
              (\<exists>chunks. accum (paragraph u) = Some chunks \<and>
                 original_text u = Some (concat chunks))"
    if u: "u \<in> set all_paras" and nb: "\<not> is_blank (original_text u)" for u
  proof -
    have mem: "u \<in> set ?tr" using u nb by (simp add: translatable_of_def)
    have o: "original_text u = Some (unit_text u)"
      using not_blank_Some[OF nb]
      by (cases "original_text u") (simp_all add: unit_text_def text_or_empty_def)
    from tx mem own[OF mem] show ?thesis unfolding o by auto
  qed
  from run cm' each show ?thesis by blast
qed

theorem round_trip_identity_witness:
  "identity_translation unreachable
   \<and> distinct (map paragraph
        [\<lparr>paragraph = 1::nat, original_text = Some ''Halo''\<rparr>,
         \<lparr>paragraph = 2, original_text = Some ''  ''\<rparr>,
         \<lparr>paragraph = 3, original_text = Some ''dunia''\<rparr>])
   \<and> run_commits (translate_docx unreachable
        [\<lparr>paragraph = 1::nat, original_text = Some ''Halo''\<rparr>,
         \<lparr>paragraph = 2, original_text = Some ''  ''\<rparr>,
         \<lparr>paragraph = 3, original_text = Some ''dunia''\<rparr>] blank_document fresh_net)
       = [(1, ''Halo''), (3, ''dunia'')]"
proof -
  let ?us = "[\<lparr>paragraph = 1::nat, original_text = Some ''Halo''\<rparr>,
       \<lparr>paragraph = 2, original_text = Some ''  ''\<rparr>,
       \<lparr>paragraph = 3, original_text = Some ''dunia''\<rparr>]"
  have d: "distinct (map paragraph ?us)" by simp
  have tr: "translatable_of ?us = [\<lparr>paragraph = 1::nat, original_text = Some ''Halo''\<rparr>,
       \<lparr>paragraph = 3, original_text = Some ''dunia''\<rparr>]"
    by (simp add: translatable_of_def is_blank_def strip_def isspace_def)
  from round_trip_identity[OF identity_unreachable d, of blank_document fresh_net]
  obtain accum doc' s' where
    run: "translate_docx unreachable ?us blank_document fresh_net = Some (Inr accum, doc', s')" and
    cm: "commits doc' = commits blank_document @
             map (\<lambda>u. (paragraph u, unit_text u)) (translatable_of ?us)"
    by blast
  have "run_commits (translate_docx unreachable ?us blank_document fresh_net) = commits doc'"
    unfolding run by (simp add: run_commits_def)
  also have "\<dots> = [(1, ''Halo''), (3, ''dunia'')]"
    unfolding cm tr by (simp add: blank_document_def unit_text_def text_or_empty_def)
  finally show ?thesis using identity_unreachable d by (intro conjI)
qed





end
